theory Spec2Isabelle
  imports Main
begin

text \<open>
  A model of the tic-tac-toe programs \<^verbatim>\<open>YC_Project2_PartA.py\<close> (two humans),
  \<^verbatim>\<open>YC_Project2_PartB.py\<close> (human against minimax) and \<^verbatim>\<open>YC_Project2_PartC.py\<close>
  (human against a trained classifier).  Console output is left out except where a
  property is about what is announced.
\<close>

section \<open>Board\<close>

text \<open>
  \<^verbatim>\<open>Board.c\<close> is a list of three rows of three one-character strings; a cell holds
  \<^verbatim>\<open>"X"\<close>, \<^verbatim>\<open>"O"\<close> or \<^verbatim>\<open>" "\<close>.  \<^verbatim>\<open>Board.__init__\<close> is the only constructor and no
  code changes the shape, so every index \<^verbatim>\<open>0..2\<close> the game logic uses is in range;
  the theorems carry that shape as the hypothesis \<open>wf_board\<close>.
\<close>

type_synonym board = "char list list"

abbreviation blank :: char where "blank \<equiv> CHR '' ''"
abbreviation mark_X :: char where "mark_X \<equiv> CHR ''X''"
abbreviation mark_O :: char where "mark_O \<equiv> CHR ''O''"

definition new_board :: board where
  "new_board = [[blank, blank, blank], [blank, blank, blank], [blank, blank, blank]]"

definition is_mark :: "char \<Rightarrow> bool" where
  "is_mark x \<longleftrightarrow> x = mark_X \<or> x = mark_O \<or> x = blank"

definition wf_board :: "board \<Rightarrow> bool" where
  "wf_board b \<longleftrightarrow> length b = 3 \<and> list_all (\<lambda>row. length row = 3 \<and> list_all is_mark row) b"

text \<open>The assignment \<^verbatim>\<open>board[r][c] = v\<close>.\<close>

definition set_cell :: "board \<Rightarrow> nat \<Rightarrow> nat \<Rightarrow> char \<Rightarrow> board" where
  "set_cell b r c v = b[r := (b ! r)[c := v]]"

text \<open>The scan order of \<^verbatim>\<open>for r in range(3): for c in range(3)\<close>.\<close>

definition cells :: "(nat \<times> nat) list" where
  "cells = concat (map (\<lambda>r. map (\<lambda>c. (r, c)) [0..<3]) [0..<3])"

text \<open>\<^verbatim>\<open>all(cell != " " for row in board for cell in row)\<close>\<close>

definition board_full :: "board \<Rightarrow> bool" where
  "board_full b \<longleftrightarrow> list_all (\<lambda>row. list_all (\<lambda>x. x \<noteq> blank) row) b"

section \<open>Part B: winner detection and minimax\<close>

definition check_winner_static :: "board \<Rightarrow> char option" where
  "check_winner_static b =
     (case find (\<lambda>r. b ! r ! 0 = b ! r ! 1 \<and> b ! r ! 1 = b ! r ! 2 \<and> b ! r ! 0 \<noteq> blank) [0..<3] of
        Some r \<Rightarrow> Some (b ! r ! 0)
      | None \<Rightarrow>
     (case find (\<lambda>c. b ! 0 ! c = b ! 1 ! c \<and> b ! 1 ! c = b ! 2 ! c \<and> b ! 0 ! c \<noteq> blank) [0..<3] of
        Some c \<Rightarrow> Some (b ! 0 ! c)
      | None \<Rightarrow>
        if b ! 0 ! 0 = b ! 1 ! 1 \<and> b ! 1 ! 1 = b ! 2 ! 2 \<and> b ! 0 ! 0 \<noteq> blank then Some (b ! 0 ! 0)
        else if b ! 0 ! 2 = b ! 1 ! 1 \<and> b ! 1 ! 1 = b ! 2 ! 0 \<and> b ! 0 ! 2 \<noteq> blank then Some (b ! 0 ! 2)
        else None))"

text \<open>
  The two move loops of \<^verbatim>\<open>minimax\<close>.  The state is the running \<^verbatim>\<open>best_score\<close> and the
  board, which the loop body writes twice: the mover's mark before the recursive call
  \<open>rec\<close>, a blank after it, into the board the call hands back.
\<close>

fun max_loop :: "(board \<Rightarrow> (int \<times> board) option) \<Rightarrow> (nat \<times> nat) list \<Rightarrow> int \<times> board \<Rightarrow> (int \<times> board) option" where
  "max_loop rec [] (best_score, b) = Some (best_score, b)"
| "max_loop rec ((r, c) # rest) (best_score, b) =
     (if b ! r ! c = blank then
        (case rec (set_cell b r c mark_O) of
           None \<Rightarrow> None
         | Some (score, b') \<Rightarrow>
             max_loop rec rest
               (if score > best_score then score else best_score, set_cell b' r c blank))
      else max_loop rec rest (best_score, b))"

fun min_loop :: "(board \<Rightarrow> (int \<times> board) option) \<Rightarrow> (nat \<times> nat) list \<Rightarrow> int \<times> board \<Rightarrow> (int \<times> board) option" where
  "min_loop rec [] (best_score, b) = Some (best_score, b)"
| "min_loop rec ((r, c) # rest) (best_score, b) =
     (if b ! r ! c = blank then
        (case rec (set_cell b r c mark_X) of
           None \<Rightarrow> None
         | Some (score, b') \<Rightarrow>
             min_loop rec rest
               (if score < best_score then score else best_score, set_cell b' r c blank))
      else min_loop rec rest (best_score, b))"

text \<open>
  \<^verbatim>\<open>minimax(board, is_maximizing)\<close> returns the score and leaves the board it mutated in
  place; the model returns both.  The first argument bounds the recursion depth: \<open>None\<close>
  is a search that did not return within it.
\<close>

primrec minimax :: "nat \<Rightarrow> board \<Rightarrow> bool \<Rightarrow> (int \<times> board) option" where
  "minimax 0 b is_maximizing = None"
| "minimax (Suc n) b is_maximizing =
     (let winner = check_winner_static b in
      if winner = Some mark_O then Some (1, b)
      else if winner = Some mark_X then Some (- 1, b)
      else if board_full b then Some (0, b)
      else if is_maximizing then max_loop (\<lambda>b'. minimax n b' False) cells (- 999, b)
      else min_loop (\<lambda>b'. minimax n b' True) cells (999, b))"

text \<open>
  \<^verbatim>\<open>Game\<close> has the fields \<^verbatim>\<open>board\<close> and \<^verbatim>\<open>turn\<close> (Part C adds the trained
  \<^verbatim>\<open>model\<close>, which none of the modelled methods reads).
\<close>

record game =
  board :: board
  turn :: char

text \<open>
  The search loop of \<^verbatim>\<open>computer_move\<close>: like \<open>max_loop\<close>, and it also records the
  move that raised \<^verbatim>\<open>best_score\<close>.
\<close>

fun computer_loop :: "(board \<Rightarrow> (int \<times> board) option) \<Rightarrow> (nat \<times> nat) list \<Rightarrow>
    int \<times> (nat \<times> nat) option \<times> board \<Rightarrow> (int \<times> (nat \<times> nat) option \<times> board) option" where
  "computer_loop rec [] (best_score, best_move, b) = Some (best_score, best_move, b)"
| "computer_loop rec ((r, c) # rest) (best_score, best_move, b) =
     (if b ! r ! c = blank then
        (case rec (set_cell b r c mark_O) of
           None \<Rightarrow> None
         | Some (score, b') \<Rightarrow>
             computer_loop rec rest
               (if score > best_score then (score, Some (r, c), set_cell b' r c blank)
                else (best_score, best_move, set_cell b' r c blank)))
      else computer_loop rec rest (best_score, best_move, b))"

text \<open>
  \<^verbatim>\<open>computer_move\<close> places the chosen move and announces it; the model returns the game
  and the announced move (\<open>None\<close> for \<^verbatim>\<open>"Computer has no moves!"\<close>).
\<close>

definition computer_move :: "nat \<Rightarrow> game \<Rightarrow> (game \<times> (nat \<times> nat) option) option" where
  "computer_move n g =
     (case computer_loop (\<lambda>b'. minimax n b' False) cells (- 999, None, board g) of
        None \<Rightarrow> None
      | Some (best_score, best_move, b) \<Rightarrow>
          (case best_move of
             Some (r, c) \<Rightarrow> Some (g\<lparr>board := set_cell b r c mark_O\<rparr>, Some (r, c))
           | None \<Rightarrow> Some (g\<lparr>board := b\<rparr>, None)))"

section \<open>Part A: turns, validation and the game loop\<close>

definition switchPlayer :: "game \<Rightarrow> game" where
  "switchPlayer g = (if turn g = mark_X then g\<lparr>turn := mark_O\<rparr> else g\<lparr>turn := mark_X\<rparr>)"

text \<open>
  \<^verbatim>\<open>validateEntry\<close> (the same in the three parts) takes the two integers parsed from the
  entry; the cell is read only after the range check.
\<close>

definition validateEntry :: "game \<Rightarrow> int \<Rightarrow> int \<Rightarrow> bool" where
  "validateEntry g row col =
     (if \<not> (0 \<le> row \<and> row \<le> 2 \<and> 0 \<le> col \<and> col \<le> 2) then False
      else if board g ! nat row ! nat col \<noteq> blank then False
      else True)"

definition checkFull :: "game \<Rightarrow> bool" where
  "checkFull g = list_all (\<lambda>r. list_all (\<lambda>c. board g ! r ! c \<noteq> blank) [0..<3]) [0..<3]"

text \<open>Part A's \<^verbatim>\<open>checkWin\<close> looks for a line of the player whose turn it is.\<close>

definition checkWin :: "game \<Rightarrow> bool" where
  "checkWin g =
     (let b = board g; t = turn g in
      list_ex (\<lambda>r. b ! r ! 0 = b ! r ! 1 \<and> b ! r ! 1 = b ! r ! 2 \<and> b ! r ! 2 = t) [0..<3]
      \<or> list_ex (\<lambda>c. b ! 0 ! c = b ! 1 ! c \<and> b ! 1 ! c = b ! 2 ! c \<and> b ! 2 ! c = t) [0..<3]
      \<or> (b ! 0 ! 0 = b ! 1 ! 1 \<and> b ! 1 ! 1 = b ! 2 ! 2 \<and> b ! 2 ! 2 = t)
      \<or> (b ! 0 ! 2 = b ! 1 ! 1 \<and> b ! 1 ! 1 = b ! 2 ! 0 \<and> b ! 2 ! 0 = t))"

definition checkEnd :: "game \<Rightarrow> bool" where
  "checkEnd g = (if checkWin g then True else if checkFull g then True else False)"

text \<open>
  The loop of Part A's \<^verbatim>\<open>playGame\<close>, run on the entries that parsed as two numbers
  (anything else is asked for again without touching the game).  A rejected entry is
  skipped; an accepted one is written with the mover's mark, then \<^verbatim>\<open>checkEnd\<close> either
  ends the game or \<^verbatim>\<open>switchPlayer\<close> hands the turn over.  The flag tells whether the game
  ended; with \<open>False\<close> the game is waiting for its next entry.
\<close>

definition place_mark :: "game \<Rightarrow> int \<Rightarrow> int \<Rightarrow> game" where
  "place_mark g row col = g\<lparr>board := set_cell (board g) (nat row) (nat col) (turn g)\<rparr>"

fun playGame_loop :: "game \<Rightarrow> (int \<times> int) list \<Rightarrow> game \<times> bool" where
  "playGame_loop g [] = (g, False)"
| "playGame_loop g ((row, col) # entries) =
     (if \<not> validateEntry g row col then playGame_loop g entries
      else
        let g1 = place_mark g row col in
        if checkEnd g1 then (g1, True)
        else playGame_loop (switchPlayer g1) entries)"

definition playGame :: "game \<Rightarrow> (int \<times> int) list \<Rightarrow> game \<times> bool" where
  "playGame g entries = playGame_loop (g\<lparr>board := new_board, turn := mark_X\<rparr>) entries"

section \<open>Part C: outcome check, features and the human move\<close>

definition checkWin_for_turn :: "game \<Rightarrow> char \<Rightarrow> bool" where
  "checkWin_for_turn g t =
     (let b = board g in
      list_ex (\<lambda>r. b ! r ! 0 = b ! r ! 1 \<and> b ! r ! 1 = b ! r ! 2 \<and> b ! r ! 2 = t) [0..<3]
      \<or> list_ex (\<lambda>c. b ! 0 ! c = b ! 1 ! c \<and> b ! 1 ! c = b ! 2 ! c \<and> b ! 2 ! c = t) [0..<3]
      \<or> (b ! 0 ! 0 = b ! 1 ! 1 \<and> b ! 1 ! 1 = b ! 2 ! 2 \<and> b ! 2 ! 2 = t)
      \<or> (b ! 0 ! 2 = b ! 1 ! 1 \<and> b ! 1 ! 1 = b ! 2 ! 0 \<and> b ! 2 ! 0 = t))"

text \<open>
  Part C's \<^verbatim>\<open>checkEnd\<close> returns whether the game is over and prints which way; the
  model returns the flag and the printed lines.
\<close>

definition checkEnd_C :: "game \<Rightarrow> bool \<times> string list" where
  "checkEnd_C g =
     (if checkWin_for_turn g mark_X then (True, [''X IS THE WINNER!!!''])
      else if checkWin_for_turn g mark_O then (True, [''O IS THE WINNER!!!''])
      else if checkFull g then (True, [''DRAW! NOBODY WINS!''])
      else (False, []))"

text \<open>
  \<^verbatim>\<open>board_to_model_features\<close> looks every cell up in the dictionary
  \<^verbatim>\<open>{'X': 1, 'O': -1, ' ': 0}\<close>; a cell that is no key raises \<^verbatim>\<open>KeyError\<close>, here
  \<open>None\<close>.
\<close>

definition mapping :: "char \<rightharpoonup> int" where
  "mapping = [mark_X \<mapsto> 1, mark_O \<mapsto> - 1, blank \<mapsto> 0]"

definition board_to_model_features :: "game \<Rightarrow> int list option" where
  "board_to_model_features g = those (map (\<lambda>(r, c). mapping (board g ! r ! c)) cells)"

text \<open>
  \<^verbatim>\<open>human_move\<close> asks for entries until one validates, then writes \<^verbatim>\<open>'X'\<close>.  The list
  holds the entries \<^verbatim>\<open>get_move_from_user\<close> will return; when it is used up the user has
  closed the input and \<^verbatim>\<open>human_move\<close> returns \<^verbatim>\<open>False\<close>.  The result is the flag, the
  game and the entries not yet read.
\<close>

fun human_move :: "game \<Rightarrow> (int \<times> int) list \<Rightarrow> bool \<times> game \<times> (int \<times> int) list" where
  "human_move g [] = (False, g, [])"
| "human_move g ((row, col) # entries) =
     (if \<not> validateEntry g row col then human_move g entries
      else (True, g\<lparr>board := set_cell (board g) (nat row) (nat col) mark_X\<rparr>, entries))"

section \<open>Reference notions of the specification\<close>

text \<open>
  The eight lines of the grid, in the order rows, columns, main diagonal, anti-diagonal.
\<close>

definition win_lines :: "(nat \<times> nat) list list" where
  "win_lines =
     [[(0, 0), (0, 1), (0, 2)], [(1, 0), (1, 1), (1, 2)], [(2, 0), (2, 1), (2, 2)],
      [(0, 0), (1, 0), (2, 0)], [(0, 1), (1, 1), (2, 1)], [(0, 2), (1, 2), (2, 2)],
      [(0, 0), (1, 1), (2, 2)], [(0, 2), (1, 1), (2, 0)]]"

text \<open>\<open>has_line b p\<close>: all three cells of some line hold \<open>p\<close> (the specification's \<open>hasWin\<close>).\<close>

definition has_line :: "board \<Rightarrow> char \<Rightarrow> bool" where
  "has_line b p = list_ex (\<lambda>line. list_all (\<lambda>(r, c). b ! r ! c = p) line) win_lines"

text \<open>
  \<open>first_line b\<close>: the mark on the first completed line in the order of \<open>win_lines\<close>,
  if any line is completed.
\<close>

definition three_in_row :: "char \<Rightarrow> char \<Rightarrow> char \<Rightarrow> bool" where
  "three_in_row x y z \<longleftrightarrow> x = y \<and> y = z \<and> x \<noteq> blank"

definition line_owner :: "board \<Rightarrow> (nat \<times> nat) list \<Rightarrow> char option" where
  "line_owner b line =
     (case map (\<lambda>(r, c). b ! r ! c) line of
        [x, y, z] \<Rightarrow> if three_in_row x y z then Some x else None
      | _ \<Rightarrow> None)"

definition first_line :: "board \<Rightarrow> char option" where
  "first_line b = (case List.map_filter (line_owner b) win_lines of [] \<Rightarrow> None | p # _ \<Rightarrow> Some p)"

text \<open>
  The empty cells in row-major order (the specification's \<open>legalMoves\<close>).  On a 3x3
  board the two range tests always hold; they keep the moves of a list of another shape
  inside it, so that the recursion of the reference value is well-founded on every list.
\<close>

definition legal_moves :: "board \<Rightarrow> (nat \<times> nat) list" where
  "legal_moves b = filter (\<lambda>(r, c). r < length b \<and> c < length (b ! r) \<and> b ! r ! c = blank) cells"

text \<open>The number of empty cells, the measure of the search.\<close>

definition count_empty :: "board \<Rightarrow> nat" where
  "count_empty b = sum_list (map (\<lambda>row. length (filter (\<lambda>x. x = blank) row)) b)"

text \<open>
  The reference game value: \<open>+1\<close> when the first completed line is \<open>O\<close>'s, \<open>-1\<close> when it
  is \<open>X\<close>'s, \<open>0\<close> on a full board without a line, otherwise the maximum (\<open>O\<close> to move) or
  the minimum (\<open>X\<close> to move) over the legal moves of the value of the board with the
  mover's mark placed and the other side to move.
\<close>

function game_value :: "board \<Rightarrow> bool \<Rightarrow> int" where
  "game_value b mx =
     (if first_line b = Some mark_O then 1
      else if first_line b = Some mark_X then - 1
      else if board_full b then 0
      else if mx then
        Max (set (map (\<lambda>m. game_value (set_cell b (fst m) (snd m) mark_O) False) (legal_moves b)))
      else
        Min (set (map (\<lambda>m. game_value (set_cell b (fst m) (snd m) mark_X) True) (legal_moves b))))"
  by pat_completeness auto
termination
proof (relation "measure (\<lambda>(b, mx). count_empty b)")
  have row: "length (filter (\<lambda>x. x = blank) (xs[i := v])) < length (filter (\<lambda>x. x = blank) xs)"
    if "i < length xs" "xs ! i = blank" "v \<noteq> blank" for xs :: "char list" and i v
    using that
  proof (induction xs arbitrary: i)
    case Nil
    then show ?case by simp
  next
    case (Cons x xs)
    then show ?case by (cases i) auto
  qed
  have brd: "count_empty (set_cell b r c v) < count_empty b"
    if "r < length b" "c < length (b ! r)" "b ! r ! c = blank" "v \<noteq> blank" for b r c v
    using that
  proof (induction b arbitrary: r)
    case Nil
    then show ?case by simp
  next
    case (Cons x xs)
    show ?case
    proof (cases r)
      case 0
      with Cons.prems row[of c x v] show ?thesis
        by (simp add: count_empty_def set_cell_def)
    next
      case (Suc k)
      with Cons.prems Cons.IH[of k] show ?thesis
        by (simp add: count_empty_def set_cell_def)
    qed
  qed
  show "wf (measure (\<lambda>(b, mx). count_empty b))" by simp
  fix b :: board and mx :: bool and m :: "nat \<times> nat"
  assume "m \<in> set (legal_moves b)"
  then have "fst m < length b \<and> snd m < length (b ! fst m) \<and> b ! fst m ! snd m = blank"
    by (auto simp: legal_moves_def)
  then show "((set_cell b (fst m) (snd m) mark_O, False), (b, mx)) \<in> measure (\<lambda>(b, mx). count_empty b)"
    and "((set_cell b (fst m) (snd m) mark_X, True), (b, mx)) \<in> measure (\<lambda>(b, mx). count_empty b)"
    using brd by simp_all
qed

declare game_value.simps [simp del]

text \<open>
  The score the top-level search gives a move of \<open>O\<close>: the value of the board with the
  move made and \<open>X\<close> to move.
\<close>

definition move_score :: "board \<Rightarrow> nat \<times> nat \<Rightarrow> int" where
  "move_score b m = game_value (set_cell b (fst m) (snd m) mark_O) False"

text \<open>
  The specification's feature encoding and its inverse: \<open>X\<close> is \<open>+1\<close>, \<open>O\<close> is \<open>-1\<close>,
  empty is \<open>0\<close>; decoding cuts the nine numbers into three rows.
\<close>

definition encode_cell :: "char \<Rightarrow> int" where
  "encode_cell x = (if x = mark_X then 1 else if x = mark_O then - 1 else 0)"

definition decode_cell :: "int \<Rightarrow> char option" where
  "decode_cell v =
     (if v = 1 then Some mark_X else if v = - 1 then Some mark_O
      else if v = 0 then Some blank else None)"

definition decode_features :: "int list \<Rightarrow> board option" where
  "decode_features v =
     (if length v = 9 then
        (case those (map decode_cell v) of
           None \<Rightarrow> None
         | Some xs \<Rightarrow> Some [take 3 xs, take 3 (drop 3 xs), drop 6 xs])
      else None)"


text \<open>
  \<open>accepted_moves g entries\<close>: played from \<open>g\<close> in Part A's loop, every entry passes
  \<^verbatim>\<open>validateEntry\<close> and none of the moves ends the game.
\<close>

fun accepted_moves :: "game \<Rightarrow> (int \<times> int) list \<Rightarrow> bool" where
  "accepted_moves g [] = True"
| "accepted_moves g ((row, col) # entries) =
     (validateEntry g row col \<and> \<not> checkEnd (place_mark g row col) \<and>
      accepted_moves (switchPlayer (place_mark g row col)) entries)"

section \<open>A bounded search for bounds on the game value\<close>

text \<open>
  Evaluating the full search from the empty board inside the logic takes over half a
  million calls.  Bounds on a value need far less: the positions are held as nine
  constructor arguments, and \<open>brd\<close> maps a position to the board it stands for.
\<close>

datatype cell = Free | ByX | ByO

datatype pos = Grid cell cell cell cell cell cell cell cell cell

fun glyph :: "cell \<Rightarrow> char" where
  "glyph Free = blank"
| "glyph ByX = mark_X"
| "glyph ByO = mark_O"

fun brd :: "pos \<Rightarrow> board" where
  "brd (Grid a b c d e f g h i) =
     [[glyph a, glyph b, glyph c], [glyph d, glyph e, glyph f], [glyph g, glyph h, glyph i]]"

fun winner_p :: "pos \<Rightarrow> cell option" where
  "winner_p (Grid a b c d e f g h i) =
    (if a = b \<and> b = c \<and> a \<noteq> Free then Some a
     else if d = e \<and> e = f \<and> d \<noteq> Free then Some d
     else if g = h \<and> h = i \<and> g \<noteq> Free then Some g
     else if a = d \<and> d = g \<and> a \<noteq> Free then Some a
     else if b = e \<and> e = h \<and> b \<noteq> Free then Some b
     else if c = f \<and> f = i \<and> c \<noteq> Free then Some c
     else if a = e \<and> e = i \<and> a \<noteq> Free then Some a
     else if c = e \<and> e = g \<and> c \<noteq> Free then Some c
     else None)"

fun full_p :: "pos \<Rightarrow> bool" where
  "full_p (Grid a b c d e f g h i) =
     (a \<noteq> Free \<and> b \<noteq> Free \<and> c \<noteq> Free \<and> d \<noteq> Free \<and> e \<noteq> Free \<and> f \<noteq> Free \<and> g \<noteq> Free \<and> h \<noteq> Free \<and> i \<noteq> Free)"

text \<open>The positions one move of \<open>m\<close> away: centre first, then corners, then edges.\<close>

fun children :: "cell \<Rightarrow> pos \<Rightarrow> pos list" where
  "children m (Grid a b c d e f g h i) =
     (if e = Free then [Grid a b c d m f g h i] else []) @
     (if a = Free then [Grid m b c d e f g h i] else []) @
     (if i = Free then [Grid a b c d e f g h m] else []) @
     (if c = Free then [Grid a b m d e f g h i] else []) @
     (if g = Free then [Grid a b c d e f m h i] else []) @
     (if b = Free then [Grid a m c d e f g h i] else []) @
     (if d = Free then [Grid a b c m e f g h i] else []) @
     (if f = Free then [Grid a b c d e m g h i] else []) @
     (if h = Free then [Grid a b c d e f g m i] else [])"

text \<open>Quantifiers over a list that stop at the first decisive element.\<close>

fun any_chk :: "('a \<Rightarrow> bool) \<Rightarrow> 'a list \<Rightarrow> bool" where
  "any_chk f [] = False"
| "any_chk f (x # xs) = (if f x then True else any_chk f xs)"

fun all_chk :: "('a \<Rightarrow> bool) \<Rightarrow> 'a list \<Rightarrow> bool" where
  "all_chk f [] = True"
| "all_chk f (x # xs) = (if f x then all_chk f xs else False)"

text \<open>
  \<open>chk n True mx p\<close> searches for a proof that the value of \<open>p\<close> is at least \<open>0\<close>,
  \<open>chk n False mx p\<close> that it is at most \<open>0\<close>: the side that gains from the bound needs
  one good move, the other side is given every move.  \<open>n\<close> bounds the depth; \<open>False\<close>
  means no proof was found.
\<close>

primrec chk :: "nat \<Rightarrow> bool \<Rightarrow> bool \<Rightarrow> pos \<Rightarrow> bool" where
  "chk 0 ge mx p = False"
| "chk (Suc n) ge mx p =
    (case winner_p p of
       Some w \<Rightarrow> (if w = ByO then ge else \<not> ge)
     | None \<Rightarrow>
        if full_p p then True
        else if mx = ge then any_chk (chk n ge (\<not> mx)) (children (if mx then ByO else ByX) p)
        else all_chk (chk n ge (\<not> mx)) (children (if mx then ByO else ByX) p))"

text \<open>The nine positions after the first move of \<open>O\<close> on the empty board, in scan order.\<close>

definition openings :: "pos list" where
  "openings =
     [Grid ByO Free Free Free Free Free Free Free Free,
      Grid Free ByO Free Free Free Free Free Free Free,
      Grid Free Free ByO Free Free Free Free Free Free,
      Grid Free Free Free ByO Free Free Free Free Free,
      Grid Free Free Free Free ByO Free Free Free Free,
      Grid Free Free Free Free Free ByO Free Free Free,
      Grid Free Free Free Free Free Free ByO Free Free,
      Grid Free Free Free Free Free Free Free ByO Free,
      Grid Free Free Free Free Free Free Free Free ByO]"

section \<open>Basic facts\<close>

lemma find3: "find P [0..<3] = (if P 0 then Some 0 else if P 1 then Some 1 else if P 2 then Some (2::nat) else None)"
  by (simp add: numeral_eq_Suc)

lemma check_winner_static_unfold:
  "check_winner_static b =
    (if b ! 0 ! 0 = b ! 0 ! 1 \<and> b ! 0 ! 1 = b ! 0 ! 2 \<and> b ! 0 ! 0 \<noteq> blank then Some (b ! 0 ! 0)
     else if b ! 1 ! 0 = b ! 1 ! 1 \<and> b ! 1 ! 1 = b ! 1 ! 2 \<and> b ! 1 ! 0 \<noteq> blank then Some (b ! 1 ! 0)
     else if b ! 2 ! 0 = b ! 2 ! 1 \<and> b ! 2 ! 1 = b ! 2 ! 2 \<and> b ! 2 ! 0 \<noteq> blank then Some (b ! 2 ! 0)
     else if b ! 0 ! 0 = b ! 1 ! 0 \<and> b ! 1 ! 0 = b ! 2 ! 0 \<and> b ! 0 ! 0 \<noteq> blank then Some (b ! 0 ! 0)
     else if b ! 0 ! 1 = b ! 1 ! 1 \<and> b ! 1 ! 1 = b ! 2 ! 1 \<and> b ! 0 ! 1 \<noteq> blank then Some (b ! 0 ! 1)
     else if b ! 0 ! 2 = b ! 1 ! 2 \<and> b ! 1 ! 2 = b ! 2 ! 2 \<and> b ! 0 ! 2 \<noteq> blank then Some (b ! 0 ! 2)
     else if b ! 0 ! 0 = b ! 1 ! 1 \<and> b ! 1 ! 1 = b ! 2 ! 2 \<and> b ! 0 ! 0 \<noteq> blank then Some (b ! 0 ! 0)
     else if b ! 0 ! 2 = b ! 1 ! 1 \<and> b ! 1 ! 1 = b ! 2 ! 0 \<and> b ! 0 ! 2 \<noteq> blank then Some (b ! 0 ! 2)
     else None)"
  unfolding check_winner_static_def find3
  by (simp only: if_distrib[of "\<lambda>x. case_option _ _ x"] option.case cong: if_cong)

lemma check_winner_static_three:
  "check_winner_static b =
    (if three_in_row (b ! 0 ! 0) (b ! 0 ! 1) (b ! 0 ! 2) then Some (b ! 0 ! 0)
     else if three_in_row (b ! 1 ! 0) (b ! 1 ! 1) (b ! 1 ! 2) then Some (b ! 1 ! 0)
     else if three_in_row (b ! 2 ! 0) (b ! 2 ! 1) (b ! 2 ! 2) then Some (b ! 2 ! 0)
     else if three_in_row (b ! 0 ! 0) (b ! 1 ! 0) (b ! 2 ! 0) then Some (b ! 0 ! 0)
     else if three_in_row (b ! 0 ! 1) (b ! 1 ! 1) (b ! 2 ! 1) then Some (b ! 0 ! 1)
     else if three_in_row (b ! 0 ! 2) (b ! 1 ! 2) (b ! 2 ! 2) then Some (b ! 0 ! 2)
     else if three_in_row (b ! 0 ! 0) (b ! 1 ! 1) (b ! 2 ! 2) then Some (b ! 0 ! 0)
     else if three_in_row (b ! 0 ! 2) (b ! 1 ! 1) (b ! 2 ! 0) then Some (b ! 0 ! 2)
     else None)"
  by (simp only: three_in_row_def check_winner_static_unfold)

lemma first_line_three:
  "first_line b =
    (if three_in_row (b ! 0 ! 0) (b ! 0 ! 1) (b ! 0 ! 2) then Some (b ! 0 ! 0)
     else if three_in_row (b ! 1 ! 0) (b ! 1 ! 1) (b ! 1 ! 2) then Some (b ! 1 ! 0)
     else if three_in_row (b ! 2 ! 0) (b ! 2 ! 1) (b ! 2 ! 2) then Some (b ! 2 ! 0)
     else if three_in_row (b ! 0 ! 0) (b ! 1 ! 0) (b ! 2 ! 0) then Some (b ! 0 ! 0)
     else if three_in_row (b ! 0 ! 1) (b ! 1 ! 1) (b ! 2 ! 1) then Some (b ! 0 ! 1)
     else if three_in_row (b ! 0 ! 2) (b ! 1 ! 2) (b ! 2 ! 2) then Some (b ! 0 ! 2)
     else if three_in_row (b ! 0 ! 0) (b ! 1 ! 1) (b ! 2 ! 2) then Some (b ! 0 ! 0)
     else if three_in_row (b ! 0 ! 2) (b ! 1 ! 1) (b ! 2 ! 0) then Some (b ! 0 ! 2)
     else None)"
  by (simp add: first_line_def win_lines_def line_owner_def List.map_filter_simps)

lemma check_winner_static_first_line: "check_winner_static b = first_line b"
  by (simp only: check_winner_static_three first_line_three)

lemma wf_board_shape:
  assumes "wf_board b"
  shows "\<exists>a0 a1 a2 a3 a4 a5 a6 a7 a8.
    b = [[a0, a1, a2], [a3, a4, a5], [a6, a7, a8]] \<and>
    is_mark a0 \<and> is_mark a1 \<and> is_mark a2 \<and> is_mark a3 \<and> is_mark a4 \<and>
    is_mark a5 \<and> is_mark a6 \<and> is_mark a7 \<and> is_mark a8"
  using assms
  by (auto simp: wf_board_def length_Suc_conv numeral_eq_Suc)

lemma cells_eq:
  "cells = [(0, 0), (0, 1), (0, 2), (1, 0), (1, 1), (1, 2), (2, 0), (2, 1), (2, 2)]"
  by (simp add: cells_def numeral_eq_Suc)

lemma mapping_encode:
  "is_mark x \<Longrightarrow> mapping x = Some (encode_cell x)"
  by (auto simp: mapping_def encode_cell_def is_mark_def)

lemma decode_encode:
  "is_mark x \<Longrightarrow> decode_cell (encode_cell x) = Some x"
  by (auto simp: decode_cell_def encode_cell_def is_mark_def)

section \<open>The feature encoding\<close>

text \<open>
  C8.  On a 3x3 board of marks \<^verbatim>\<open>board_to_model_features\<close> returns the nine numbers of
  the encoding \<open>X \<mapsto> +1\<close>, \<open>O \<mapsto> -1\<close>, empty \<open>\<mapsto> 0\<close> in row-major order, and the
  inverse mapping, cut into rows, gives the board back.
\<close>

theorem features_roundtrip:
  assumes "wf_board (board g)"
  shows "board_to_model_features g = Some (map encode_cell (concat (board g)))
       \<and> length (map encode_cell (concat (board g))) = 9
       \<and> decode_features (map encode_cell (concat (board g))) = Some (board g)"
proof -
  from assms obtain a0 a1 a2 a3 a4 a5 a6 a7 a8 where
    b: "board g = [[a0, a1, a2], [a3, a4, a5], [a6, a7, a8]]"
    and m: "is_mark a0" "is_mark a1" "is_mark a2" "is_mark a3" "is_mark a4"
      "is_mark a5" "is_mark a6" "is_mark a7" "is_mark a8"
    using wf_board_shape by blast
  have "board_to_model_features g = Some (map encode_cell (concat (board g)))"
    by (simp add: board_to_model_features_def cells_eq b m mapping_encode)
  moreover have "decode_features (map encode_cell (concat (board g))) = Some (board g)"
    by (simp add: decode_features_def b m decode_encode)
  moreover have "length (map encode_cell (concat (board g))) = 9"
    by (simp add: b)
  ultimately show ?thesis by simp
qed

theorem features_roundtrip_witness:
  "wf_board (board \<lparr>board = [''XO '', '' X '', ''O  ''], turn = mark_X\<rparr>)
   \<and> board_to_model_features \<lparr>board = [''XO '', '' X '', ''O  ''], turn = mark_X\<rparr>
       = Some [1, - 1, 0, 0, 1, 0, - 1, 0, 0]
   \<and> decode_features [1, - 1, 0, 0, 1, 0, - 1, 0, 0] = Some [''XO '', '' X '', ''O  '']"
proof -
  have h: "wf_board (board \<lparr>board = [''XO '', '' X '', ''O  ''], turn = mark_X\<rparr>)"
    by (simp add: wf_board_def is_mark_def)
  have e: "map encode_cell (concat (board \<lparr>board = [''XO '', '' X '', ''O  ''], turn = mark_X\<rparr>))
      = [1, - 1, 0, 0, 1, 0, - 1, 0, 0]"
    by (simp add: encode_cell_def)
  from features_roundtrip[OF h] h show ?thesis
    unfolding e by simp
qed


lemma line3: "(x = y \<and> y = z \<and> z = t) \<longleftrightarrow> (x = t \<and> y = t \<and> z = t)"
  by auto

lemma list_ex3: "list_ex Q [0..<3] = (Q 0 \<or> Q 1 \<or> Q 2)"
  by (simp add: numeral_eq_Suc)

lemma list_all3: "list_all Q [0..<3] = (Q 0 \<and> Q 1 \<and> Q 2)"
  by (simp add: numeral_eq_Suc)

lemma checkWin_for_turn_has_line: "checkWin_for_turn g t = has_line (board g) t"
  by (simp add: checkWin_for_turn_def has_line_def win_lines_def list_ex3 line3 Let_def)

lemma checkFull_board_full: "wf_board (board g) \<Longrightarrow> checkFull g = board_full (board g)"
  using wf_board_shape[of "board g"]
  by (auto simp: checkFull_def board_full_def list_all3)

section \<open>Rejected entries\<close>

lemma human_move_rejected:
  "\<forall>e \<in> set rejected. \<not> validateEntry g (fst e) (snd e) \<Longrightarrow>
   human_move g (rejected @ entries) = human_move g entries"
  by (induction rejected) auto

lemma playGame_loop_rejected:
  "\<forall>e \<in> set rejected. \<not> validateEntry g (fst e) (snd e) \<Longrightarrow>
   playGame_loop g (rejected @ entries) = playGame_loop g entries"
  by (induction rejected) auto

lemma human_move_placed:
  "human_move g entries = (True, g', rest) \<Longrightarrow>
   \<exists>row col. (row, col) \<in> set entries \<and> validateEntry g row col \<and>
     g' = g\<lparr>board := set_cell (board g) (nat row) (nat col) mark_X\<rparr>"
proof (induction entries)
  case Nil
  then show ?case by simp
next
  case (Cons e entries)
  obtain r c where e: "e = (r, c)" by (cases e)
  show ?case
  proof (cases "validateEntry g r c")
    case True
    with Cons.prems e have "g' = g\<lparr>board := set_cell (board g) (nat r) (nat c) mark_X\<rparr>"
      by simp
    with True e show ?thesis by auto
  next
    case False
    with Cons.prems e have "human_move g entries = (True, g', rest)" by simp
    from Cons.IH[OF this] show ?thesis by auto
  qed
qed

lemma human_move_changed:
  "human_move g entries = (ok, g', rest) \<Longrightarrow> \<not> ok \<Longrightarrow> g' = g"
  by (induction entries) (auto split: if_splits)

text \<open>
  C6.  \<^verbatim>\<open>validateEntry\<close> accepts exactly the entries in range on an empty cell.  Entries
  it rejects leave no trace: \<^verbatim>\<open>human_move\<close> and Part A's loop go on, with the game as it
  was, as if they had not been made, and when only rejected entries were made the game
  is unchanged.  If \<^verbatim>\<open>human_move\<close> returns \<^verbatim>\<open>True\<close> it wrote one \<open>X\<close>, into a cell
  whose entry validated; if it returns \<^verbatim>\<open>False\<close> the game is unchanged.
\<close>

theorem rejected_move_atomic:
  "(validateEntry g row col \<longleftrightarrow>
      0 \<le> row \<and> row \<le> 2 \<and> 0 \<le> col \<and> col \<le> 2 \<and> board g ! nat row ! nat col = blank)
   \<and> ((\<forall>e \<in> set rejected. \<not> validateEntry g (fst e) (snd e)) \<longrightarrow>
        human_move g (rejected @ entries) = human_move g entries
        \<and> human_move g rejected = (False, g, [])
        \<and> playGame_loop g (rejected @ entries) = playGame_loop g entries
        \<and> playGame_loop g rejected = (g, False))
   \<and> (human_move g entries = (ok, g', rest) \<longrightarrow>
        (if ok then \<exists>r c. (r, c) \<in> set entries \<and> validateEntry g r c \<and>
                    g' = g\<lparr>board := set_cell (board g) (nat r) (nat c) mark_X\<rparr>
         else g' = g))"
proof -
  have "human_move g rejected = (False, g, [])" "playGame_loop g rejected = (g, False)"
    if "\<forall>e \<in> set rejected. \<not> validateEntry g (fst e) (snd e)"
    using human_move_rejected[OF that, of "[]"] playGame_loop_rejected[OF that, of "[]"] by simp_all
  then show ?thesis
    using human_move_rejected[of rejected g entries] playGame_loop_rejected[of rejected g entries]
      human_move_placed[of g entries g' rest] human_move_changed[of g entries ok g' rest]
    by (auto simp: validateEntry_def)
qed

theorem rejected_move_atomic_witness:
  "\<not> validateEntry \<lparr>board = [''X  '', ''   '', ''   ''], turn = mark_O\<rparr> 3 0
   \<and> \<not> validateEntry \<lparr>board = [''X  '', ''   '', ''   ''], turn = mark_O\<rparr> 0 0
   \<and> validateEntry \<lparr>board = [''X  '', ''   '', ''   ''], turn = mark_O\<rparr> 1 1
   \<and> human_move \<lparr>board = [''X  '', ''   '', ''   ''], turn = mark_O\<rparr> [(3, 0), (0, 0)]
       = (False, \<lparr>board = [''X  '', ''   '', ''   ''], turn = mark_O\<rparr>, [])
   \<and> playGame_loop \<lparr>board = [''X  '', ''   '', ''   ''], turn = mark_O\<rparr> [(3, 0), (0, 0)]
       = (\<lparr>board = [''X  '', ''   '', ''   ''], turn = mark_O\<rparr>, False)
   \<and> human_move \<lparr>board = [''X  '', ''   '', ''   ''], turn = mark_O\<rparr> [(3, 0), (0, 0), (1, 1)]
       = (True, \<lparr>board = [''X  '', '' X '', ''   ''], turn = mark_O\<rparr>, [])"
proof -
  let ?g = "\<lparr>board = [''X  '', ''   '', ''   ''], turn = mark_O\<rparr>"
  have r: "\<forall>e \<in> set [(3, 0), (0, 0)]. \<not> validateEntry ?g (fst e) (snd e)"
    by (simp add: validateEntry_def)
  have v: "validateEntry ?g 1 1"
    by (simp add: validateEntry_def)
  have m: "human_move ?g [(1, 1)] = (True, \<lparr>board = [''X  '', '' X '', ''   ''], turn = mark_O\<rparr>, [])"
    by (simp add: v set_cell_def)
  from rejected_move_atomic[of ?g 3 0 "[(3, 0), (0, 0)]" "[(1, 1)]" True
      "\<lparr>board = [''X  '', '' X '', ''   ''], turn = mark_O\<rparr>" "[]"] r v m
  show ?thesis by (simp add: validateEntry_def)
qed

section \<open>Turn alternation\<close>

lemma switchPlayer_turn:
  "turn (switchPlayer g) = (if turn g = mark_X then mark_O else mark_X)"
  by (simp add: switchPlayer_def)

lemma accepted_moves_turn:
  assumes "accepted_moves g entries" "turn g = mark_X \<or> turn g = mark_O"
  shows "snd (playGame_loop g entries) = False
     \<and> turn (fst (playGame_loop g entries)) =
         (if even (length entries) then turn g else if turn g = mark_X then mark_O else mark_X)"
  using assms
proof (induction entries arbitrary: g)
  case Nil
  then show ?case by simp
next
  case (Cons e entries)
  obtain row col where e: "e = (row, col)" by (cases e)
  let ?g = "switchPlayer (place_mark g row col)"
  from Cons.prems e have acc: "validateEntry g row col" "\<not> checkEnd (place_mark g row col)"
    "accepted_moves ?g entries" by simp_all
  have t: "turn ?g = (if turn g = mark_X then mark_O else mark_X)"
    by (simp add: switchPlayer_turn place_mark_def)
  then have "turn ?g = mark_X \<or> turn ?g = mark_O" by simp
  from Cons.IH[OF acc(3) this] acc(1,2) e t Cons.prems(2) show ?case
    by (auto simp: Let_def)
qed

text \<open>
  C7.  Part A's \<^verbatim>\<open>playGame\<close> starts on the empty board with \<open>X\<close> to move.  After \<open>N\<close>
  accepted entries, none of which ended the game, the game is still running and the
  turn is \<open>X\<close>'s if \<open>N\<close> is even and \<open>O\<close>'s if \<open>N\<close> is odd.
\<close>

theorem turn_parity:
  assumes "accepted_moves (g\<lparr>board := new_board, turn := mark_X\<rparr>) entries"
  shows "snd (playGame g entries) = False
     \<and> turn (fst (playGame g entries)) = (if even (length entries) then mark_X else mark_O)"
  using accepted_moves_turn[OF assms] by (simp add: playGame_def)

theorem turn_parity_witness:
  "accepted_moves (\<lparr>board = [''XO '', ''   '', ''   ''], turn = mark_O\<rparr>\<lparr>board := new_board, turn := mark_X\<rparr>)
     [(0, 0), (1, 1), (0, 1)]
   \<and> snd (playGame \<lparr>board = [''XO '', ''   '', ''   ''], turn = mark_O\<rparr> [(0, 0), (1, 1), (0, 1)]) = False
   \<and> turn (fst (playGame \<lparr>board = [''XO '', ''   '', ''   ''], turn = mark_O\<rparr> [(0, 0), (1, 1), (0, 1)])) = mark_O"
proof -
  let ?g = "\<lparr>board = [''XO '', ''   '', ''   ''], turn = mark_O\<rparr>"
  have a: "accepted_moves (?g\<lparr>board := new_board, turn := mark_X\<rparr>) [(0, 0), (1, 1), (0, 1)]"
    by code_simp
  from turn_parity[OF a] a show ?thesis by simp
qed

section \<open>Cells, boards and the measure\<close>

lemma cells_mem: "(r, c) \<in> set cells \<longleftrightarrow> r < 3 \<and> c < 3"
  by (force simp: cells_def)

lemma wf_board_in_range:
  "wf_board b \<Longrightarrow> r < 3 \<Longrightarrow> c < 3 \<Longrightarrow> r < length b \<and> c < length (b ! r)"
  by (auto simp: wf_board_def list_all_length)

lemma set_cell_restore: "set_cell (set_cell b r c v) r c (b ! r ! c) = b"
  by (cases "r < length b") (simp_all add: set_cell_def list_update_beyond)

lemma list_all_update: "list_all Q xs \<Longrightarrow> Q x \<Longrightarrow> list_all Q (xs[i := x])"
  by (induction xs arbitrary: i) (auto split: nat.splits)

lemma wf_board_set_cell: "wf_board b \<Longrightarrow> is_mark v \<Longrightarrow> wf_board (set_cell b r c v)"
proof (cases "r < length b")
  case True
  assume wf: "wf_board b" and v: "is_mark v"
  from wf True have "length (b ! r) = 3 \<and> list_all is_mark (b ! r)"
    by (simp add: wf_board_def list_all_length)
  with v have "length ((b ! r)[c := v]) = 3 \<and> list_all is_mark ((b ! r)[c := v])"
    by (simp add: list_all_update)
  with wf show ?thesis
    by (simp add: wf_board_def set_cell_def list_all_update)
next
  case False
  assume "wf_board b"
  with False show ?thesis
    by (simp add: set_cell_def list_update_beyond)
qed

lemma count_filter_update:
  "i < length xs \<Longrightarrow> xs ! i = blank \<Longrightarrow> v \<noteq> blank \<Longrightarrow>
   Suc (length (filter (\<lambda>x. x = blank) (xs[i := v]))) = length (filter (\<lambda>x. x = blank) xs)"
  by (induction xs arbitrary: i) (auto split: nat.splits)

lemma count_empty_set_cell:
  "r < length b \<Longrightarrow> c < length (b ! r) \<Longrightarrow> b ! r ! c = blank \<Longrightarrow> v \<noteq> blank \<Longrightarrow>
   Suc (count_empty (set_cell b r c v)) = count_empty b"
proof (induction b arbitrary: r)
  case Nil
  then show ?case by simp
next
  case (Cons x xs)
  show ?case
  proof (cases r)
    case 0
    with Cons.prems count_filter_update[of c x v] show ?thesis
      by (simp add: count_empty_def set_cell_def)
  next
    case (Suc k)
    with Cons.prems Cons.IH[of k] show ?thesis
      by (simp add: count_empty_def set_cell_def)
  qed
qed

lemma legal_moves_wf:
  "wf_board b \<Longrightarrow> legal_moves b = filter (\<lambda>(r, c). b ! r ! c = blank) cells"
  unfolding legal_moves_def
  by (rule filter_cong) (auto simp: cells_mem dest: wf_board_in_range)

lemma legal_moves_mem:
  "wf_board b \<Longrightarrow> (r, c) \<in> set (legal_moves b) \<longleftrightarrow> r < 3 \<and> c < 3 \<and> b ! r ! c = blank"
  by (auto simp: legal_moves_wf cells_mem)

lemma board_full_legal_moves: "wf_board b \<Longrightarrow> board_full b \<longleftrightarrow> legal_moves b = []"
proof -
  assume wf: "wf_board b"
  then obtain a0 a1 a2 a3 a4 a5 a6 a7 a8 where
    b: "b = [[a0, a1, a2], [a3, a4, a5], [a6, a7, a8]]"
    using wf_board_shape by blast
  show ?thesis
    unfolding legal_moves_wf[OF wf] cells_eq
    by (simp add: b board_full_def filter_empty_conv)
qed

section \<open>The search loops\<close>

lemma game_value_range: "wf_board b \<Longrightarrow> game_value b mx \<in> {- 1, 0, 1}"
proof (induction b mx rule: game_value.induct)
  case (1 b mx)
  note wf = \<open>wf_board b\<close>
  show ?case
  proof (cases "first_line b = Some mark_O \<or> first_line b = Some mark_X \<or> board_full b")
    case True
    then show ?thesis by (subst game_value.simps) auto
  next
    case False
    then have ne: "legal_moves b \<noteq> []"
      using board_full_legal_moves[OF wf] by simp
    show ?thesis
    proof (cases mx)
      case True
      let ?S = "set (map (\<lambda>m. game_value (set_cell b (fst m) (snd m) mark_O) False) (legal_moves b))"
      have "?S \<subseteq> {- 1, 0, 1}"
        using "1.IH"(1) False True wf
        by (auto simp: wf_board_set_cell is_mark_def)
      moreover have "Max ?S \<in> ?S" using ne by (intro Max_in) auto
      ultimately have "Max ?S \<in> {- 1, 0, 1}" by blast
      with False True show ?thesis by (subst game_value.simps) simp
    next
      case mxF: False
      let ?S = "set (map (\<lambda>m. game_value (set_cell b (fst m) (snd m) mark_X) True) (legal_moves b))"
      have "?S \<subseteq> {- 1, 0, 1}"
        using "1.IH"(2) False mxF wf
        by (auto simp: wf_board_set_cell is_mark_def)
      moreover have "Min ?S \<in> ?S" using ne by (intro Min_in) auto
      ultimately have "Min ?S \<in> {- 1, 0, 1}" by blast
      with False mxF show ?thesis by (subst game_value.simps) simp
    qed
  qed
qed

lemma max_loop_restores:
  assumes "\<And>r c. (r, c) \<in> set cs \<Longrightarrow> b ! r ! c = blank \<Longrightarrow>
     rec (set_cell b r c mark_O) = Some (val (r, c), set_cell b r c mark_O)"
  shows "max_loop rec cs (best, b) =
     Some (fold max (map val (filter (\<lambda>(r, c). b ! r ! c = blank) cs)) best, b)"
  using assms
proof (induction cs arbitrary: best)
  case Nil
  then show ?case by simp
next
  case (Cons m cs)
  obtain r c where m: "m = (r, c)" by (cases m)
  have IH: "max_loop rec cs (best', b) =
     Some (fold max (map val (filter (\<lambda>(r, c). b ! r ! c = blank) cs)) best', b)" for best'
    using Cons.IH Cons.prems by simp
  show ?case
  proof (cases "b ! r ! c = blank")
    case True
    then have "rec (set_cell b r c mark_O) = Some (val (r, c), set_cell b r c mark_O)"
      using Cons.prems m by simp
    moreover have "set_cell (set_cell b r c mark_O) r c blank = b"
      using set_cell_restore[of b r c mark_O] True by simp
    moreover have "(if best < val (r, c) then val (r, c) else best) = max (val (r, c)) best"
      by (simp add: max_def)
    ultimately show ?thesis
      using True m IH by simp
  next
    case False
    then show ?thesis using m IH by simp
  qed
qed

lemma min_loop_restores:
  assumes "\<And>r c. (r, c) \<in> set cs \<Longrightarrow> b ! r ! c = blank \<Longrightarrow>
     rec (set_cell b r c mark_X) = Some (val (r, c), set_cell b r c mark_X)"
  shows "min_loop rec cs (best, b) =
     Some (fold min (map val (filter (\<lambda>(r, c). b ! r ! c = blank) cs)) best, b)"
  using assms
proof (induction cs arbitrary: best)
  case Nil
  then show ?case by simp
next
  case (Cons m cs)
  obtain r c where m: "m = (r, c)" by (cases m)
  have IH: "min_loop rec cs (best', b) =
     Some (fold min (map val (filter (\<lambda>(r, c). b ! r ! c = blank) cs)) best', b)" for best'
    using Cons.IH Cons.prems by simp
  show ?case
  proof (cases "b ! r ! c = blank")
    case True
    then have "rec (set_cell b r c mark_X) = Some (val (r, c), set_cell b r c mark_X)"
      using Cons.prems m by simp
    moreover have "set_cell (set_cell b r c mark_X) r c blank = b"
      using set_cell_restore[of b r c mark_X] True by simp
    moreover have "(if val (r, c) < best then val (r, c) else best) = min (val (r, c)) best"
      by (simp add: min_def)
    ultimately show ?thesis
      using True m IH by simp
  next
    case False
    then show ?thesis using m IH by simp
  qed
qed

lemma fold_max_sentinel:
  fixes xs :: "int list"
  assumes "xs \<noteq> []" "\<forall>x \<in> set xs. s \<le> x"
  shows "fold max xs s = Max (set xs)"
proof -
  have "fold max xs s = Max (set (s # xs))" by (rule Max.set_eq_fold[symmetric])
  also have "\<dots> = max s (Max (set xs))" using assms(1) by simp
  also have "\<dots> = Max (set xs)"
    using assms by (simp add: max_def Max_ge_iff)
  finally show ?thesis .
qed

lemma fold_min_sentinel:
  fixes xs :: "int list"
  assumes "xs \<noteq> []" "\<forall>x \<in> set xs. x \<le> s"
  shows "fold min xs s = Min (set xs)"
proof -
  have "fold min xs s = Min (set (s # xs))" by (rule Min.set_eq_fold[symmetric])
  also have "\<dots> = min s (Min (set xs))" using assms(1) by simp
  also have "\<dots> = Min (set xs)"
  proof -
    from assms obtain x where "x \<in> set xs" "x \<le> s" by (cases xs) auto
    then have "Min (set xs) \<le> x" "x \<le> s" by simp_all
    then have "Min (set xs) \<le> s" by (rule order_trans)
    then show ?thesis by (simp add: min_absorb2)
  qed
  finally show ?thesis .
qed

section \<open>The search computes the game value\<close>

lemma child_ok:
  assumes wf: "wf_board b" and m: "(r, c) \<in> set cells" "b ! r ! c = blank"
    and v: "v = mark_O \<or> v = mark_X"
  shows "wf_board (set_cell b r c v)" "Suc (count_empty (set_cell b r c v)) = count_empty b"
proof -
  from m(1) have rc: "r < 3" "c < 3" by (simp_all add: cells_mem)
  from v show "wf_board (set_cell b r c v)"
    using wf by (auto simp: wf_board_set_cell is_mark_def)
  from v have "v \<noteq> blank" by auto
  with wf_board_in_range[OF wf rc] m(2)
  show "Suc (count_empty (set_cell b r c v)) = count_empty b"
    by (simp add: count_empty_set_cell)
qed

lemma minimax_game_value:
  "wf_board b \<Longrightarrow> count_empty b < n \<Longrightarrow> minimax n b mx = Some (game_value b mx, b)"
proof (induction n arbitrary: b mx)
  case 0
  then show ?case by simp
next
  case (Suc n)
  note wf = \<open>wf_board b\<close>
  have legal: "filter (\<lambda>(r, c). b ! r ! c = blank) cells = legal_moves b"
    by (simp add: legal_moves_wf[OF wf])
  show ?case
  proof (cases "first_line b = Some mark_O \<or> first_line b = Some mark_X \<or> board_full b")
    case True
    then show ?thesis
      by (subst game_value.simps) (auto simp: check_winner_static_first_line)
  next
    case False
    then have ne: "legal_moves b \<noteq> []"
      using board_full_legal_moves[OF wf] by simp
    show ?thesis
    proof (cases mx)
      case True
      let ?val = "\<lambda>(r, c). game_value (set_cell b r c mark_O) False"
      have rec: "minimax n (set_cell b r c mark_O) False = Some (?val (r, c), set_cell b r c mark_O)"
        if "(r, c) \<in> set cells" "b ! r ! c = blank" for r c
        using Suc.IH[of "set_cell b r c mark_O" False] child_ok[OF wf that, of mark_O] Suc.prems(2)
        by simp
      have "\<forall>x \<in> set (map ?val (legal_moves b)). - 999 \<le> x"
      proof
        fix x assume "x \<in> set (map ?val (legal_moves b))"
        then obtain r c where "(r, c) \<in> set cells" "b ! r ! c = blank" and x: "x = ?val (r, c)"
          by (auto simp: legal[symmetric])
        from child_ok(1)[OF wf this(1,2), of mark_O] have "?val (r, c) \<in> {- 1, 0, 1}"
          using game_value_range by simp
        with x show "- 999 \<le> x" by auto
      qed
      with ne have "fold max (map ?val (legal_moves b)) (- 999) = Max (set (map ?val (legal_moves b)))"
        by (intro fold_max_sentinel) simp_all
      moreover have "game_value b True = Max (set (map ?val (legal_moves b)))"
        using False by (subst game_value.simps) (simp add: case_prod_beta)
      ultimately show ?thesis
        using False True max_loop_restores[of cells b "\<lambda>b'. minimax n b' False" ?val "- 999", OF rec]
        by (simp add: check_winner_static_first_line legal)
    next
      case mxF: False
      let ?val = "\<lambda>(r, c). game_value (set_cell b r c mark_X) True"
      have rec: "minimax n (set_cell b r c mark_X) True = Some (?val (r, c), set_cell b r c mark_X)"
        if "(r, c) \<in> set cells" "b ! r ! c = blank" for r c
        using Suc.IH[of "set_cell b r c mark_X" True] child_ok[OF wf that, of mark_X] Suc.prems(2)
        by simp
      have "\<forall>x \<in> set (map ?val (legal_moves b)). x \<le> 999"
      proof
        fix x assume "x \<in> set (map ?val (legal_moves b))"
        then obtain r c where "(r, c) \<in> set cells" "b ! r ! c = blank" and x: "x = ?val (r, c)"
          by (auto simp: legal[symmetric])
        from child_ok(1)[OF wf this(1,2), of mark_X] have "?val (r, c) \<in> {- 1, 0, 1}"
          using game_value_range by simp
        with x show "x \<le> 999" by auto
      qed
      with ne have "fold min (map ?val (legal_moves b)) 999 = Min (set (map ?val (legal_moves b)))"
        by (intro fold_min_sentinel) simp_all
      moreover have "game_value b False = Min (set (map ?val (legal_moves b)))"
        using False by (subst game_value.simps) (simp add: case_prod_beta)
      ultimately show ?thesis
        using False mxF min_loop_restores[of cells b "\<lambda>b'. minimax n b' True" ?val 999, OF rec]
        by (simp add: check_winner_static_first_line legal)
    qed
  qed
qed

section \<open>The top-level search\<close>

lemma computer_loop_restores:
  assumes "\<And>r c. (r, c) \<in> set cs \<Longrightarrow> b ! r ! c = blank \<Longrightarrow>
     rec (set_cell b r c mark_O) = Some (val (r, c), set_cell b r c mark_O)"
  shows "computer_loop rec cs (best, bm, b) =
     (case fold (\<lambda>m (s, mv). if s < val m then (val m, Some m) else (s, mv))
             (filter (\<lambda>(r, c). b ! r ! c = blank) cs) (best, bm)
      of (s, mv) \<Rightarrow> Some (s, mv, b))"
  using assms
proof (induction cs arbitrary: best bm)
  case Nil
  then show ?case by simp
next
  case (Cons m cs)
  obtain r c where m: "m = (r, c)" by (cases m)
  have IH: "computer_loop rec cs (best', bm', b) =
     (case fold (\<lambda>m (s, mv). if s < val m then (val m, Some m) else (s, mv))
             (filter (\<lambda>(r, c). b ! r ! c = blank) cs) (best', bm')
      of (s, mv) \<Rightarrow> Some (s, mv, b))" for best' bm'
    using Cons.IH Cons.prems by simp
  show ?case
  proof (cases "b ! r ! c = blank")
    case True
    then have "rec (set_cell b r c mark_O) = Some (val (r, c), set_cell b r c mark_O)"
      using Cons.prems m by simp
    moreover have "set_cell (set_cell b r c mark_O) r c blank = b"
      using set_cell_restore[of b r c mark_O] True by simp
    ultimately show ?thesis
      using True m IH by simp
  next
    case False
    then show ?thesis using m IH by simp
  qed
qed

lemma fold_max_ge: "s \<le> fold max xs (s :: int)"
proof (induction xs arbitrary: s)
  case Nil
  then show ?case by simp
next
  case (Cons x xs)
  have "s \<le> max x s" by simp
  also have "\<dots> \<le> fold max xs (max x s)" by (rule Cons.IH)
  finally show ?case by simp
qed

lemma fold_pick_first:
  fixes val :: "'a \<Rightarrow> int"
  shows "fold (\<lambda>m (s, mv). if s < val m then (val m, Some m) else (s, mv)) ms (best, bm) =
     (fold max (map val ms) best,
      if fold max (map val ms) best = best then bm
      else find (\<lambda>m. val m = fold max (map val ms) best) ms)"
proof (induction ms arbitrary: best bm)
  case Nil
  then show ?case by simp
next
  case (Cons m ms)
  show ?case
  proof (cases "best < val m")
    case True
    then have mx: "max (val m) best = val m" by simp
    have "val m \<le> fold max (map val ms) (val m)" by (rule fold_max_ge)
    with True have "fold max (map val ms) (val m) \<noteq> best" by simp
    with True mx show ?thesis
      by (simp add: Cons.IH eq_commute)
  next
    case False
    then have mx: "max (val m) best = best" by simp
    have ge: "best \<le> fold max (map val ms) best" by (rule fold_max_ge)
    have "val m \<noteq> fold max (map val ms) best" if "fold max (map val ms) best \<noteq> best"
      using that ge False by simp
    with False mx show ?thesis
      by (simp add: Cons.IH)
  qed
qed

lemma computer_move_first_best:
  assumes wf: "wf_board (board g)" and ne: "legal_moves (board g) \<noteq> []"
    and fuel: "count_empty (board g) \<le> n"
  shows "\<exists>m. find (\<lambda>m. move_score (board g) m = Max (set (map (move_score (board g)) (legal_moves (board g)))))
               (legal_moves (board g)) = Some m
     \<and> computer_loop (\<lambda>b'. minimax n b' False) cells (- 999, None, board g)
         = Some (Max (set (map (move_score (board g)) (legal_moves (board g)))), Some m, board g)
     \<and> computer_move n g = Some (g\<lparr>board := set_cell (board g) (fst m) (snd m) mark_O\<rparr>, Some m)"
proof -
  let ?b = "board g"
  let ?val = "move_score ?b"
  let ?M = "Max (set (map ?val (legal_moves ?b)))"
  have legal: "filter (\<lambda>(r, c). ?b ! r ! c = blank) cells = legal_moves ?b"
    by (simp add: legal_moves_wf[OF wf])
  have rec: "minimax n (set_cell ?b r c mark_O) False = Some (?val (r, c), set_cell ?b r c mark_O)"
    if "(r, c) \<in> set cells" "?b ! r ! c = blank" for r c
    using minimax_game_value[of "set_cell ?b r c mark_O" n False] child_ok[OF wf that, of mark_O] fuel
    by (simp add: move_score_def)
  have range: "?val m \<in> {- 1, 0, 1}" if "m \<in> set (legal_moves ?b)" for m
  proof -
    from that have "(fst m, snd m) \<in> set cells" "?b ! fst m ! snd m = blank"
      by (auto simp: legal[symmetric])
    from child_ok(1)[OF wf this, of mark_O] show ?thesis
      using game_value_range by (simp add: move_score_def)
  qed
  then have "\<forall>x \<in> set (map ?val (legal_moves ?b)). - 999 \<le> x" by fastforce
  with ne have fm: "fold max (map ?val (legal_moves ?b)) (- 999) = ?M"
    by (intro fold_max_sentinel) simp_all
  have "?M \<in> set (map ?val (legal_moves ?b))" using ne by (intro Max_in) auto
  then obtain m0 where m0: "m0 \<in> set (legal_moves ?b)" "?val m0 = ?M" by auto
  with range[OF m0(1)] have M: "?M \<noteq> - 999" by auto
  have "find (\<lambda>m. ?val m = ?M) (legal_moves ?b) \<noteq> None"
    unfolding find_None_iff using m0 by blast
  then obtain m where m: "find (\<lambda>m. ?val m = ?M) (legal_moves ?b) = Some m"
    by blast
  have loop: "computer_loop (\<lambda>b'. minimax n b' False) cells (- 999, None, ?b) = Some (?M, Some m, ?b)"
  proof -
    have "fold (\<lambda>m (s, mv). if s < ?val m then (?val m, Some m) else (s, mv))
        (legal_moves ?b) (- 999, None) = (?M, Some m)"
      unfolding fold_pick_first fm using M m by simp
    then show ?thesis
      using computer_loop_restores[of cells ?b "\<lambda>b'. minimax n b' False" ?val "- 999" None, OF rec]
      unfolding legal by (simp only: prod.case)
  qed
  then have "computer_move n g = Some (g\<lparr>board := set_cell ?b (fst m) (snd m) mark_O\<rparr>, Some m)"
    by (simp add: computer_move_def case_prod_beta)
  with m loop show ?thesis by blast
qed

section \<open>Soundness of the bounded search\<close>

lemma glyph_eq: "glyph x = glyph y \<longleftrightarrow> x = y"
  by (cases x; cases y) simp_all

lemma glyph_blank: "glyph x = blank \<longleftrightarrow> x = Free"
  by (cases x) simp_all

lemma three_glyph: "three_in_row (glyph x) (glyph y) (glyph z) \<longleftrightarrow> x = y \<and> y = z \<and> x \<noteq> Free"
  by (simp add: three_in_row_def glyph_eq glyph_blank)

lemma brd_wf: "wf_board (brd p)"
proof (cases p)
  case (Grid a b c d e f g h i)
  have "is_mark (glyph x)" for x by (cases x) (simp_all add: is_mark_def)
  with Grid show ?thesis by (simp add: wf_board_def)
qed

lemma winner_p_three:
  "winner_p (Grid a b c d e f g h i) =
    (if three_in_row (glyph a) (glyph b) (glyph c) then Some a
     else if three_in_row (glyph d) (glyph e) (glyph f) then Some d
     else if three_in_row (glyph g) (glyph h) (glyph i) then Some g
     else if three_in_row (glyph a) (glyph d) (glyph g) then Some a
     else if three_in_row (glyph b) (glyph e) (glyph h) then Some b
     else if three_in_row (glyph c) (glyph f) (glyph i) then Some c
     else if three_in_row (glyph a) (glyph e) (glyph i) then Some a
     else if three_in_row (glyph c) (glyph e) (glyph g) then Some c
     else None)"
  by (simp only: three_glyph winner_p.simps)

lemma first_line_brd: "first_line (brd p) = map_option glyph (winner_p p)"
proof (cases p)
  case (Grid a b c d e f g h i)
  show ?thesis
    unfolding Grid first_line_three winner_p_three
    by simp
qed

lemma three_in_row_Free: "three_in_row (glyph x) y z \<Longrightarrow> x \<noteq> Free"
  by (auto simp: three_in_row_def)

lemma winner_p_not_Free: "winner_p p \<noteq> Some Free"
  by (cases p) (auto simp: winner_p_three simp del: winner_p.simps split: if_splits dest: three_in_row_Free)

lemma board_full_brd: "board_full (brd p) = full_p p"
  by (cases p) (simp add: board_full_def glyph_blank)

lemma any_chk_iff: "any_chk f xs \<longleftrightarrow> (\<exists>x \<in> set xs. f x)"
  by (induction xs) auto

lemma all_chk_iff: "all_chk f xs \<longleftrightarrow> (\<forall>x \<in> set xs. f x)"
  by (induction xs) auto

lemma children_legal:
  "(\<lambda>q. brd q) ` set (children k p) =
   (\<lambda>m. set_cell (brd p) (fst m) (snd m) (glyph k)) ` set (legal_moves (brd p))"
proof (cases p)
  case (Grid a b c d e f g h i)
  show ?thesis
    unfolding legal_moves_wf[OF brd_wf] cells_eq Grid
    by (simp add: set_cell_def glyph_blank)
qed

lemma children_values:
  "set (map (\<lambda>m. game_value (set_cell (brd p) (fst m) (snd m) (glyph k)) mx) (legal_moves (brd p)))
   = (\<lambda>q. game_value (brd q) mx) ` set (children k p)"
proof -
  have "(\<lambda>q. game_value (brd q) mx) ` set (children k p)
      = (\<lambda>b. game_value b mx) ` ((\<lambda>q. brd q) ` set (children k p))"
    by (simp add: image_image)
  also have "\<dots> = (\<lambda>b. game_value b mx) `
      ((\<lambda>m. set_cell (brd p) (fst m) (snd m) (glyph k)) ` set (legal_moves (brd p)))"
    by (simp only: children_legal)
  finally show ?thesis by (simp add: image_image)
qed

lemma chk_sound:
  "chk n ge mx p \<Longrightarrow>
   (if ge then 0 \<le> game_value (brd p) mx else game_value (brd p) mx \<le> 0)"
proof (induction n arbitrary: p mx)
  case 0
  then show ?case by simp
next
  case (Suc n)
  show ?case
  proof (cases "winner_p p")
    case (Some w)
    with winner_p_not_Free[of p] have w: "w = ByO \<or> w = ByX" by (cases w) auto
    have "game_value (brd p) mx = (if w = ByO then 1 else - 1)"
      using w Some by (subst game_value.simps) (auto simp: first_line_brd)
    with w Some Suc.prems show ?thesis
      by auto
  next
    case None
    then have nl: "first_line (brd p) = None" by (simp add: first_line_brd)
    show ?thesis
    proof (cases "full_p p")
      case True
      with nl have "game_value (brd p) mx = 0"
        by (subst game_value.simps) (simp add: board_full_brd)
      then show ?thesis by simp
    next
      case False
      then have ne: "legal_moves (brd p) \<noteq> []"
        using board_full_legal_moves[OF brd_wf, of p] by (simp add: board_full_brd)
      show ?thesis
      proof (cases mx)
        case True
        let ?S = "(\<lambda>q. game_value (brd q) False) ` set (children ByO p)"
        have gv: "game_value (brd p) True = Max ?S"
          using nl False children_values[of p ByO False]
          by (subst game_value.simps) (simp add: board_full_brd)
        have fin: "finite ?S" "?S \<noteq> {}"
          using ne children_values[of p ByO False] by auto
        show ?thesis
        proof (cases ge)
          case geT: True
          with Suc.prems None False True obtain q where
            "q \<in> set (children ByO p)" "chk n True False q"
            by (auto simp: any_chk_iff)
          with Suc.IH[of False q] geT have "\<exists>x \<in> ?S. 0 \<le> x" by auto
          with fin geT gv True show ?thesis by (simp add: Max_ge_iff)
        next
          case geF: False
          with Suc.prems None False True have
            "\<forall>q \<in> set (children ByO p). chk n False False q"
            by (auto simp: all_chk_iff)
          with Suc.IH[of False] geF have "\<forall>x \<in> ?S. x \<le> 0" by auto
          with fin geF gv True show ?thesis by (simp add: Max_le_iff)
        qed
      next
        case mxF: False
        let ?S = "(\<lambda>q. game_value (brd q) True) ` set (children ByX p)"
        have gv: "game_value (brd p) False = Min ?S"
          using nl False children_values[of p ByX True]
          by (subst game_value.simps) (simp add: board_full_brd)
        have fin: "finite ?S" "?S \<noteq> {}"
          using ne children_values[of p ByX True] by auto
        show ?thesis
        proof (cases ge)
          case geT: True
          with Suc.prems None False mxF have
            "\<forall>q \<in> set (children ByX p). chk n True True q"
            by (auto simp: all_chk_iff)
          with Suc.IH[of True] geT have "\<forall>x \<in> ?S. 0 \<le> x" by auto
          with fin geT gv mxF show ?thesis by (simp add: Min_ge_iff)
        next
          case geF: False
          with Suc.prems None False mxF obtain q where
            "q \<in> set (children ByX p)" "chk n False True q"
            by (auto simp: any_chk_iff)
          with Suc.IH[of True q] geF have "\<exists>x \<in> ?S. x \<le> 0" by auto
          with fin geF gv mxF show ?thesis by (simp add: Min_le_iff)
        qed
      qed
    qed
  qed
qed

section \<open>The empty board\<close>

lemma opening_bounds: "list_all (\<lambda>p. chk 9 True False p \<and> chk 9 False False p) openings"
  by code_simp

lemma opening_boards:
  "map (\<lambda>m. set_cell new_board (fst m) (snd m) mark_O) cells = map brd openings"
  by (simp add: cells_eq new_board_def set_cell_def openings_def)

lemma chk_both_zero: "chk n True mx p \<and> chk n False mx p \<Longrightarrow> game_value (brd p) mx = 0"
  using chk_sound[of n True mx p] chk_sound[of n False mx p] by simp

lemma opening_scores: "map (move_score new_board) cells = replicate 9 0"
proof -
  have z: "game_value (brd p) False = 0" if "p \<in> set openings" for p
    using opening_bounds that chk_both_zero[of 9 False p] unfolding list_all_iff by blast
  have "map (move_score new_board) cells =
      map (\<lambda>b. game_value b False) (map (\<lambda>m. set_cell new_board (fst m) (snd m) mark_O) cells)"
    by (simp add: move_score_def comp_def)
  also have "\<dots> = map (\<lambda>p. game_value (brd p) False) openings"
    unfolding opening_boards by (simp add: comp_def)
  also have "\<dots> = map (\<lambda>p. 0) openings"
    by (rule map_cong) (simp_all add: z)
  also have "\<dots> = replicate 9 0"
    by (simp add: openings_def numeral_eq_Suc)
  finally show ?thesis .
qed

lemma opening_score_zero: "m \<in> set cells \<Longrightarrow> move_score new_board m = 0"
proof -
  assume "m \<in> set cells"
  then have "move_score new_board m \<in> set (map (move_score new_board) cells)" by simp
  then show ?thesis unfolding opening_scores by simp
qed

lemma new_board_facts: "wf_board new_board" "legal_moves new_board = cells" "count_empty new_board = 9"
proof -
  show wf: "wf_board new_board" by (simp add: new_board_def wf_board_def is_mark_def)
  show "legal_moves new_board = cells"
    unfolding legal_moves_wf[OF wf] cells_eq by (simp add: new_board_def)
  show "count_empty new_board = 9" by (simp add: new_board_def count_empty_def)
qed

lemma empty_board_search:
  assumes "9 \<le> n"
  shows "computer_move n (g\<lparr>board := new_board\<rparr>)
      = Some (g\<lparr>board := set_cell new_board 0 0 mark_O\<rparr>, Some (0, 0))"
proof -
  let ?g = "g\<lparr>board := new_board\<rparr>"
  have b: "board ?g = new_board" by simp
  have M: "Max (set (map (move_score new_board) cells)) = 0"
    unfolding opening_scores by (simp add: numeral_eq_Suc)
  have "move_score new_board (0, 0) = 0"
    by (rule opening_score_zero) (simp add: cells_eq)
  then have f: "find (\<lambda>m. move_score new_board m = 0) cells = Some (0, 0)"
    by (simp add: cells_eq)
  have pre: "wf_board (board ?g)" "legal_moves (board ?g) \<noteq> []" "count_empty (board ?g) \<le> n"
    using assms by (simp_all add: new_board_facts cells_eq)
  from computer_move_first_best[OF pre]
  obtain m where m: "find (\<lambda>m. move_score (board ?g) m
        = Max (set (map (move_score (board ?g)) (legal_moves (board ?g))))) (legal_moves (board ?g)) = Some m"
    and cm: "computer_move n ?g = Some (?g\<lparr>board := set_cell (board ?g) (fst m) (snd m) mark_O\<rparr>, Some m)"
    by blast
  from m have "find (\<lambda>m. move_score new_board m = 0) cells = Some m"
    unfolding b new_board_facts(2) M .
  with f have "m = (0, 0)" by simp
  with cm show ?thesis by simp
qed

section \<open>The first completed line\<close>

lemma first_line_has_line: "first_line b = Some q \<Longrightarrow> has_line b q \<and> q \<noteq> blank"
  unfolding first_line_three
  by (auto simp: has_line_def win_lines_def three_in_row_def split: if_splits)

lemma first_line_None_iff:
  "first_line b = None \<longleftrightarrow>
     \<not> (three_in_row (b ! 0 ! 0) (b ! 0 ! 1) (b ! 0 ! 2)
        \<or> three_in_row (b ! 1 ! 0) (b ! 1 ! 1) (b ! 1 ! 2)
        \<or> three_in_row (b ! 2 ! 0) (b ! 2 ! 1) (b ! 2 ! 2)
        \<or> three_in_row (b ! 0 ! 0) (b ! 1 ! 0) (b ! 2 ! 0)
        \<or> three_in_row (b ! 0 ! 1) (b ! 1 ! 1) (b ! 2 ! 1)
        \<or> three_in_row (b ! 0 ! 2) (b ! 1 ! 2) (b ! 2 ! 2)
        \<or> three_in_row (b ! 0 ! 0) (b ! 1 ! 1) (b ! 2 ! 2)
        \<or> three_in_row (b ! 0 ! 2) (b ! 1 ! 1) (b ! 2 ! 0))"
  unfolding first_line_three by simp

lemma has_line_first_line: "has_line b q \<Longrightarrow> q \<noteq> blank \<Longrightarrow> first_line b \<noteq> None"
proof -
  assume h: "has_line b q" and q: "q \<noteq> blank"
  have I: "three_in_row q q q" using q by (simp add: three_in_row_def)
  from h have "(b ! 0 ! 0 = q \<and> b ! 0 ! 1 = q \<and> b ! 0 ! 2 = q)
      \<or> (b ! 1 ! 0 = q \<and> b ! 1 ! 1 = q \<and> b ! 1 ! 2 = q)
      \<or> (b ! 2 ! 0 = q \<and> b ! 2 ! 1 = q \<and> b ! 2 ! 2 = q)
      \<or> (b ! 0 ! 0 = q \<and> b ! 1 ! 0 = q \<and> b ! 2 ! 0 = q)
      \<or> (b ! 0 ! 1 = q \<and> b ! 1 ! 1 = q \<and> b ! 2 ! 1 = q)
      \<or> (b ! 0 ! 2 = q \<and> b ! 1 ! 2 = q \<and> b ! 2 ! 2 = q)
      \<or> (b ! 0 ! 0 = q \<and> b ! 1 ! 1 = q \<and> b ! 2 ! 2 = q)
      \<or> (b ! 0 ! 2 = q \<and> b ! 1 ! 1 = q \<and> b ! 2 ! 0 = q)"
    by (simp add: has_line_def win_lines_def)
  then show ?thesis
    unfolding first_line_None_iff
    by (elim disjE conjE) (simp_all add: I)
qed

lemma first_line_is_mark: "wf_board b \<Longrightarrow> first_line b = Some q \<Longrightarrow> is_mark q"
proof -
  assume wf: "wf_board b" and q: "first_line b = Some q"
  from wf obtain a0 a1 a2 a3 a4 a5 a6 a7 a8 where
    b: "b = [[a0, a1, a2], [a3, a4, a5], [a6, a7, a8]]"
    and m: "is_mark a0" "is_mark a1" "is_mark a2" "is_mark a3" "is_mark a4"
      "is_mark a5" "is_mark a6" "is_mark a7" "is_mark a8"
    using wf_board_shape by blast
  from q m show ?thesis
    unfolding first_line_three b by (simp split: if_splits)
qed

lemma first_line_single:
  assumes wf: "wf_board b"
  shows "has_line b mark_O \<and> \<not> has_line b mark_X \<longrightarrow> first_line b = Some mark_O"
    and "has_line b mark_X \<and> \<not> has_line b mark_O \<longrightarrow> first_line b = Some mark_X"
    and "\<not> has_line b mark_O \<and> \<not> has_line b mark_X \<longrightarrow> first_line b = None"
proof -
  have owner: "q = mark_O \<or> q = mark_X" "has_line b q" if "first_line b = Some q" for q
    using first_line_has_line[OF that] first_line_is_mark[OF wf that]
    by (auto simp: is_mark_def)
  show "has_line b mark_O \<and> \<not> has_line b mark_X \<longrightarrow> first_line b = Some mark_O"
    using has_line_first_line[of b mark_O] owner by (cases "first_line b") auto
  show "has_line b mark_X \<and> \<not> has_line b mark_O \<longrightarrow> first_line b = Some mark_X"
    using has_line_first_line[of b mark_X] owner by (cases "first_line b") auto
  show "\<not> has_line b mark_O \<and> \<not> has_line b mark_X \<longrightarrow> first_line b = None"
    using owner by (cases "first_line b") auto
qed

section \<open>Outcome check order\<close>

text \<open>
  C5 (as amended).  Part C's \<^verbatim>\<open>checkEnd\<close> tests a line of \<open>X\<close>, then a line of \<open>O\<close>, then
  fullness: on a board where both have a line it announces \<open>X\<close> as the winner, and on a
  full board without a line it announces the draw.  Part B's \<^verbatim>\<open>check_winner_static\<close>
  reports the mark on the first completed line in its scan order (rows, columns,
  diagonal, anti-diagonal): the player who alone has a line, nobody when neither has
  one, and on a board where both have a line the owner of the line met first, \<open>X\<close> or
  \<open>O\<close>.
\<close>

theorem checkEnd_order:
  assumes "wf_board (board g)"
  shows "checkEnd_C g =
     (if has_line (board g) mark_X then (True, [''X IS THE WINNER!!!''])
      else if has_line (board g) mark_O then (True, [''O IS THE WINNER!!!''])
      else if board_full (board g) then (True, [''DRAW! NOBODY WINS!''])
      else (False, []))
   \<and> check_winner_static (board g) = first_line (board g)
   \<and> (has_line (board g) mark_X \<and> \<not> has_line (board g) mark_O \<longrightarrow>
        check_winner_static (board g) = Some mark_X)
   \<and> (has_line (board g) mark_O \<and> \<not> has_line (board g) mark_X \<longrightarrow>
        check_winner_static (board g) = Some mark_O)
   \<and> (\<not> has_line (board g) mark_X \<and> \<not> has_line (board g) mark_O \<longrightarrow>
        check_winner_static (board g) = None)
   \<and> (has_line (board g) mark_X \<and> has_line (board g) mark_O \<longrightarrow>
        check_winner_static (board g) = Some mark_X \<or> check_winner_static (board g) = Some mark_O)"
proof -
  have part_c: "checkEnd_C g =
     (if has_line (board g) mark_X then (True, [''X IS THE WINNER!!!''])
      else if has_line (board g) mark_O then (True, [''O IS THE WINNER!!!''])
      else if board_full (board g) then (True, [''DRAW! NOBODY WINS!''])
      else (False, []))"
    by (simp add: checkEnd_C_def checkWin_for_turn_has_line checkFull_board_full[OF assms])
  have both: "first_line (board g) = Some mark_X \<or> first_line (board g) = Some mark_O"
    if "has_line (board g) mark_X"
  proof -
    from has_line_first_line[OF that] obtain q where q: "first_line (board g) = Some q"
      by auto
    from first_line_has_line[OF q] first_line_is_mark[OF assms q] have "q = mark_X \<or> q = mark_O"
      by (auto simp: is_mark_def)
    with q show ?thesis by auto
  qed
  from part_c both first_line_single[OF assms] show ?thesis
    unfolding check_winner_static_first_line by blast
qed

theorem checkEnd_order_witness:
  "wf_board (board \<lparr>board = [''XXX'', ''OOO'', ''   ''], turn = mark_X\<rparr>)
   \<and> has_line [''XXX'', ''OOO'', ''   ''] mark_X \<and> has_line [''XXX'', ''OOO'', ''   ''] mark_O
   \<and> checkEnd_C \<lparr>board = [''XXX'', ''OOO'', ''   ''], turn = mark_X\<rparr> = (True, [''X IS THE WINNER!!!''])
   \<and> wf_board (board \<lparr>board = [''XOX'', ''XOO'', ''OXX''], turn = mark_X\<rparr>)
   \<and> \<not> has_line [''XOX'', ''XOO'', ''OXX''] mark_X \<and> \<not> has_line [''XOX'', ''XOO'', ''OXX''] mark_O
   \<and> board_full [''XOX'', ''XOO'', ''OXX'']
   \<and> checkEnd_C \<lparr>board = [''XOX'', ''XOO'', ''OXX''], turn = mark_X\<rparr> = (True, [''DRAW! NOBODY WINS!''])"
proof -
  have w1: "wf_board (board \<lparr>board = [''XXX'', ''OOO'', ''   ''], turn = mark_X\<rparr>)"
    and w2: "wf_board (board \<lparr>board = [''XOX'', ''XOO'', ''OXX''], turn = mark_X\<rparr>)"
    by (simp_all add: wf_board_def is_mark_def)
  have l1: "has_line [''XXX'', ''OOO'', ''   ''] mark_X" "has_line [''XXX'', ''OOO'', ''   ''] mark_O"
    and l2: "\<not> has_line [''XOX'', ''XOO'', ''OXX''] mark_X" "\<not> has_line [''XOX'', ''XOO'', ''OXX''] mark_O"
    and f2: "board_full [''XOX'', ''XOO'', ''OXX'']"
    by (simp_all add: has_line_def win_lines_def board_full_def)
  from checkEnd_order[OF w1] checkEnd_order[OF w2] w1 w2 l1 l2 f2 show ?thesis
    by simp
qed

text \<open>
  With a row of \<open>O\<close> above a row of \<open>X\<close> both players have a line, and
  \<^verbatim>\<open>check_winner_static\<close> reports \<open>O\<close>, so that \<^verbatim>\<open>minimax\<close> scores the board \<open>+1\<close>.
\<close>

theorem check_winner_static_order_counterexample:
  "wf_board [''OOO'', ''XXX'', ''   '']
   \<and> has_line [''OOO'', ''XXX'', ''   ''] mark_X
   \<and> has_line [''OOO'', ''XXX'', ''   ''] mark_O
   \<and> check_winner_static [''OOO'', ''XXX'', ''   ''] = Some mark_O
   \<and> minimax 4 [''OOO'', ''XXX'', ''   ''] False = Some (1, [''OOO'', ''XXX'', ''   ''])"
proof -
  have "wf_board [''OOO'', ''XXX'', ''   '']"
    by (simp add: wf_board_def is_mark_def)
  moreover have "has_line [''OOO'', ''XXX'', ''   ''] mark_X" "has_line [''OOO'', ''XXX'', ''   ''] mark_O"
    by (simp_all add: has_line_def win_lines_def)
  moreover have "check_winner_static [''OOO'', ''XXX'', ''   ''] = Some mark_O"
    by code_simp
  moreover have "minimax 4 [''OOO'', ''XXX'', ''   ''] False = Some (1, [''OOO'', ''XXX'', ''   ''])"
    by code_simp
  ultimately show ?thesis by simp
qed

section \<open>Reading and counting cells\<close>

lemma set_cell_nth:
  "wf_board b \<Longrightarrow> r < 3 \<Longrightarrow> c < 3 \<Longrightarrow> r' < 3 \<Longrightarrow> c' < 3 \<Longrightarrow>
   set_cell b r c v ! r' ! c' = (if r' = r \<and> c' = c then v else b ! r' ! c')"
  using wf_board_in_range[of b r c] wf_board_in_range[of b r' c']
  by (auto simp: set_cell_def nth_list_update)

lemma count_empty_le: "wf_board b \<Longrightarrow> count_empty b \<le> 9"
proof -
  assume "wf_board b"
  then obtain a0 a1 a2 a3 a4 a5 a6 a7 a8 where
    b: "b = [[a0, a1, a2], [a3, a4, a5], [a6, a7, a8]]"
    using wf_board_shape by blast
  have "length (filter (\<lambda>x. x = blank) [x, y, z]) \<le> 3" for x y z :: char
    using length_filter_le[of "\<lambda>x. x = blank" "[x, y, z]"] by simp
  from this[of a0 a1 a2] this[of a3 a4 a5] this[of a6 a7 a8] show ?thesis
    unfolding b count_empty_def by (simp del: filter.simps)
qed

lemma move_score_range:
  "wf_board b \<Longrightarrow> m \<in> set (legal_moves b) \<Longrightarrow> move_score b m \<in> {- 1, 0, 1}"
proof -
  assume wf: "wf_board b" and m: "m \<in> set (legal_moves b)"
  then have "(fst m, snd m) \<in> set cells" "b ! fst m ! snd m = blank"
    by (auto simp: legal_moves_wf)
  from child_ok(1)[OF wf this, of mark_O] show ?thesis
    using game_value_range by (simp add: move_score_def)
qed

lemma move_score_minimax:
  assumes wf: "wf_board b" and m: "m \<in> set (legal_moves b)" and fuel: "count_empty b \<le> n"
  shows "minimax n (set_cell b (fst m) (snd m) mark_O) False
     = Some (move_score b m, set_cell b (fst m) (snd m) mark_O)"
proof -
  from wf m have c: "(fst m, snd m) \<in> set cells" "b ! fst m ! snd m = blank"
    by (auto simp: legal_moves_wf)
  from child_ok[OF wf c, of mark_O] fuel show ?thesis
    using minimax_game_value[of "set_cell b (fst m) (snd m) mark_O" n False]
    by (simp add: move_score_def)
qed

section \<open>The value returned by the search\<close>

text \<open>
  C1 (as amended).  On a 3x3 board of marks, searched with a depth bound above the
  number of empty cells, \<^verbatim>\<open>minimax\<close> returns the reference game value and the board it
  was given.  The value is \<open>+1\<close> when the first completed line in the order rows,
  columns, diagonal, anti-diagonal is \<open>O\<close>'s, \<open>-1\<close> when it is \<open>X\<close>'s, \<open>0\<close> on a full board
  without a line, and otherwise the maximum (\<open>O\<close> to move) or minimum (\<open>X\<close> to move) over
  the empty cells of the value with the mover's mark placed and the other side to move.
  When only one player has a completed line, the first completed line is that player's.
\<close>

theorem minimax_reference_value:
  assumes "wf_board b" and "count_empty b < n"
  shows "minimax n b mx = Some (game_value b mx, b)
   \<and> (first_line b = Some mark_O \<longrightarrow> game_value b mx = 1)
   \<and> (first_line b = Some mark_X \<longrightarrow> game_value b mx = - 1)
   \<and> (first_line b = None \<and> board_full b \<longrightarrow> game_value b mx = 0)
   \<and> (first_line b = None \<and> \<not> board_full b \<longrightarrow>
        game_value b True
          = Max (set (map (\<lambda>m. game_value (set_cell b (fst m) (snd m) mark_O) False) (legal_moves b)))
        \<and> game_value b False
          = Min (set (map (\<lambda>m. game_value (set_cell b (fst m) (snd m) mark_X) True) (legal_moves b))))
   \<and> (has_line b mark_O \<and> \<not> has_line b mark_X \<longrightarrow> first_line b = Some mark_O)
   \<and> (has_line b mark_X \<and> \<not> has_line b mark_O \<longrightarrow> first_line b = Some mark_X)
   \<and> (\<not> has_line b mark_O \<and> \<not> has_line b mark_X \<longrightarrow> first_line b = None)"
proof -
  have "game_value b mx = 1" if "first_line b = Some mark_O"
    using that by (subst game_value.simps) simp
  moreover have "game_value b mx = - 1" if "first_line b = Some mark_X"
    using that by (subst game_value.simps) simp
  moreover have "game_value b mx = 0" if "first_line b = None" "board_full b"
    using that by (subst game_value.simps) simp
  moreover have "game_value b True
      = Max (set (map (\<lambda>m. game_value (set_cell b (fst m) (snd m) mark_O) False) (legal_moves b)))"
    if "first_line b = None" "\<not> board_full b"
    using that by (subst game_value.simps) simp
  moreover have "game_value b False
      = Min (set (map (\<lambda>m. game_value (set_cell b (fst m) (snd m) mark_X) True) (legal_moves b)))"
    if "first_line b = None" "\<not> board_full b"
    using that by (subst game_value.simps) simp
  ultimately show ?thesis
    using minimax_game_value[OF assms, of mx] first_line_single[OF assms(1)]
    by blast
qed

theorem minimax_reference_value_witness:
  "wf_board [''XOX'', ''OOX'', ''   ''] \<and> count_empty [''XOX'', ''OOX'', ''   ''] < 4
   \<and> first_line [''XOX'', ''OOX'', ''   ''] = None \<and> \<not> board_full [''XOX'', ''OOX'', ''   '']
   \<and> minimax 4 [''XOX'', ''OOX'', ''   ''] True = Some (1, [''XOX'', ''OOX'', ''   ''])
   \<and> minimax 4 [''XOX'', ''OOX'', ''   ''] False = Some (- 1, [''XOX'', ''OOX'', ''   ''])"
proof -
  let ?b = "[''XOX'', ''OOX'', ''   '']"
  have h: "wf_board ?b" "count_empty ?b < 4"
    by (simp_all add: wf_board_def is_mark_def count_empty_def)
  have l: "first_line ?b = None" "\<not> board_full ?b"
    by (simp_all add: first_line_three three_in_row_def board_full_def)
  have v: "game_value ?b True = 1" "game_value ?b False = - 1"
    by code_simp+
  from minimax_reference_value[OF h, of True] minimax_reference_value[OF h, of False] h l v
  show ?thesis by simp
qed

text \<open>
  With a row of \<open>X\<close> above a row of \<open>O\<close> the search meets the line of \<open>X\<close> first and
  returns \<open>-1\<close>, although \<open>O\<close> has a completed line.
\<close>

theorem minimax_double_line_counterexample:
  "wf_board [''XXX'', ''OOO'', ''   '']
   \<and> has_line [''XXX'', ''OOO'', ''   ''] mark_O
   \<and> minimax 4 [''XXX'', ''OOO'', ''   ''] True = Some (- 1, [''XXX'', ''OOO'', ''   ''])
   \<and> minimax 4 [''XXX'', ''OOO'', ''   ''] True \<noteq> Some (1, [''XXX'', ''OOO'', ''   ''])"
proof -
  have "wf_board [''XXX'', ''OOO'', ''   '']"
    by (simp add: wf_board_def is_mark_def)
  moreover have "has_line [''XXX'', ''OOO'', ''   ''] mark_O"
    by (simp add: has_line_def win_lines_def)
  moreover have "minimax 4 [''XXX'', ''OOO'', ''   ''] True = Some (- 1, [''XXX'', ''OOO'', ''   ''])"
    by code_simp
  ultimately show ?thesis by simp
qed

lemma computer_move_no_moves:
  assumes "wf_board (board g)" and "legal_moves (board g) = []"
  shows "computer_move n g = Some (g, None)"
proof -
  have legal: "filter (\<lambda>(r, c). board g ! r ! c = blank) cells = []"
    using assms by (simp add: legal_moves_wf)
  then have none: "board g ! r ! c \<noteq> blank" if "(r, c) \<in> set cells" for r c
    using that by (auto simp: filter_empty_conv)
  have "computer_loop (\<lambda>b'. minimax n b' False) cells (- 999, None, board g)
      = Some (- 999, None, board g)"
    using computer_loop_restores[of cells "board g" "\<lambda>b'. minimax n b' False" "\<lambda>m. 0" "- 999" None]
      none
    unfolding legal by simp
  then show ?thesis by (simp add: computer_move_def)
qed

section \<open>The search leaves the board as it was\<close>

text \<open>
  C2 (as amended).  On a 3x3 board of marks, \<^verbatim>\<open>minimax\<close> returns with every cell of
  the board as it was at the call.  When the board has an empty cell, \<^verbatim>\<open>computer_move\<close>
  changes exactly one cell: the chosen cell, which was empty, now holds \<open>O\<close>, and every
  other cell, and the turn, is unchanged.  When the board has no empty cell,
  \<^verbatim>\<open>computer_move\<close> chooses no cell and changes nothing.
\<close>

theorem search_restores_board:
  assumes "wf_board (board g)" and "count_empty (board g) < n"
  shows "(\<exists>v. minimax n (board g) mx = Some (v, board g))
   \<and> (legal_moves (board g) \<noteq> [] \<longrightarrow>
        (\<exists>r c. r < 3 \<and> c < 3 \<and> board g ! r ! c = blank
           \<and> computer_move n g = Some (g\<lparr>board := set_cell (board g) r c mark_O\<rparr>, Some (r, c))
           \<and> set_cell (board g) r c mark_O ! r ! c = mark_O
           \<and> (\<forall>r' c'. r' < 3 \<and> c' < 3 \<and> (r', c') \<noteq> (r, c) \<longrightarrow>
                 set_cell (board g) r c mark_O ! r' ! c' = board g ! r' ! c')))
   \<and> (legal_moves (board g) = [] \<longrightarrow> computer_move n g = Some (g, None))"
proof -
  note wf = assms(1)
  have "\<exists>r c. r < 3 \<and> c < 3 \<and> board g ! r ! c = blank
           \<and> computer_move n g = Some (g\<lparr>board := set_cell (board g) r c mark_O\<rparr>, Some (r, c))
           \<and> set_cell (board g) r c mark_O ! r ! c = mark_O
           \<and> (\<forall>r' c'. r' < 3 \<and> c' < 3 \<and> (r', c') \<noteq> (r, c) \<longrightarrow>
                 set_cell (board g) r c mark_O ! r' ! c' = board g ! r' ! c')"
    if ne: "legal_moves (board g) \<noteq> []"
  proof -
    from assms(2) have "count_empty (board g) \<le> n" by simp
    from computer_move_first_best[OF wf ne this] obtain m where
      f: "find (\<lambda>m. move_score (board g) m
             = Max (set (map (move_score (board g)) (legal_moves (board g))))) (legal_moves (board g)) = Some m"
      and cm: "computer_move n g = Some (g\<lparr>board := set_cell (board g) (fst m) (snd m) mark_O\<rparr>, Some m)"
      by blast
    from f have "m \<in> set (legal_moves (board g))"
      by (auto simp: find_Some_iff)
    then have rc: "fst m < 3" "snd m < 3" "board g ! fst m ! snd m = blank"
      using legal_moves_mem[OF wf, of "fst m" "snd m"] by simp_all
    have "set_cell (board g) (fst m) (snd m) mark_O ! fst m ! snd m = mark_O"
      using set_cell_nth[OF wf rc(1,2) rc(1,2)] by simp
    moreover have "set_cell (board g) (fst m) (snd m) mark_O ! r' ! c' = board g ! r' ! c'"
      if "r' < 3" "c' < 3" "(r', c') \<noteq> (fst m, snd m)" for r' c'
      using set_cell_nth[OF wf rc(1,2) that(1,2)] that(3) by auto
    ultimately show ?thesis
      using rc cm by (intro exI[of _ "fst m"] exI[of _ "snd m"]) simp
  qed
  with minimax_game_value[OF assms, of mx] computer_move_no_moves[OF wf, of n]
  show ?thesis by blast
qed

theorem search_restores_board_witness:
  "wf_board (board \<lparr>board = [''XOX'', ''OOX'', ''   ''], turn = mark_O\<rparr>)
   \<and> count_empty (board \<lparr>board = [''XOX'', ''OOX'', ''   ''], turn = mark_O\<rparr>) < 4
   \<and> legal_moves (board \<lparr>board = [''XOX'', ''OOX'', ''   ''], turn = mark_O\<rparr>) \<noteq> []
   \<and> (\<exists>v. minimax 4 [''XOX'', ''OOX'', ''   ''] False = Some (v, [''XOX'', ''OOX'', ''   '']))
   \<and> (\<exists>r c. r < 3 \<and> c < 3 \<and> computer_move 4 \<lparr>board = [''XOX'', ''OOX'', ''   ''], turn = mark_O\<rparr>
        = Some (\<lparr>board = set_cell [''XOX'', ''OOX'', ''   ''] r c mark_O, turn = mark_O\<rparr>, Some (r, c)))"
proof -
  let ?g = "\<lparr>board = [''XOX'', ''OOX'', ''   ''], turn = mark_O\<rparr>"
  have h: "wf_board (board ?g)" "count_empty (board ?g) < 4"
    by (simp_all add: wf_board_def is_mark_def count_empty_def)
  have l: "legal_moves (board ?g) \<noteq> []"
    by (simp add: legal_moves_def cells_eq)
  from search_restores_board[OF h, of False] l h show ?thesis
    by simp blast
qed

text \<open>
  On a full board \<^verbatim>\<open>computer_move\<close> takes its branch for no moves: no cell changes.
\<close>

theorem computer_move_full_board_counterexample:
  "wf_board [''XOX'', ''XOO'', ''OXX'']
   \<and> computer_move 1 \<lparr>board = [''XOX'', ''XOO'', ''OXX''], turn = mark_O\<rparr>
       = Some (\<lparr>board = [''XOX'', ''XOO'', ''OXX''], turn = mark_O\<rparr>, None)"
proof -
  have "wf_board [''XOX'', ''XOO'', ''OXX'']"
    by (simp add: wf_board_def is_mark_def)
  moreover have "computer_move 1 \<lparr>board = [''XOX'', ''XOO'', ''OXX''], turn = mark_O\<rparr>
       = Some (\<lparr>board = [''XOX'', ''XOO'', ''OXX''], turn = mark_O\<rparr>, None)"
    by code_simp
  ultimately show ?thesis by simp
qed

section \<open>The tie-break of the top-level search\<close>

text \<open>
  C3.  On a 3x3 board of marks with an empty cell, the move \<^verbatim>\<open>computer_move\<close> makes is
  the first empty cell in row-major order whose score is the maximum of the scores of
  all empty cells: every empty cell before it scores strictly less, so a later cell with
  an equal score does not replace it.  The score of a cell is what \<^verbatim>\<open>minimax\<close> returns
  for the board with \<open>O\<close> placed there and \<open>X\<close> to move.
\<close>

theorem first_best_move_kept:
  assumes "wf_board (board g)" and "legal_moves (board g) \<noteq> []" and "count_empty (board g) \<le> n"
  shows "\<exists>i < length (legal_moves (board g)).
     computer_move n g
       = Some (g\<lparr>board := set_cell (board g) (fst (legal_moves (board g) ! i))
                   (snd (legal_moves (board g) ! i)) mark_O\<rparr>, Some (legal_moves (board g) ! i))
     \<and> move_score (board g) (legal_moves (board g) ! i)
         = Max (set (map (move_score (board g)) (legal_moves (board g))))
     \<and> (\<forall>j < i. move_score (board g) (legal_moves (board g) ! j)
         < Max (set (map (move_score (board g)) (legal_moves (board g)))))
     \<and> (\<forall>m \<in> set (legal_moves (board g)).
           minimax n (set_cell (board g) (fst m) (snd m) mark_O) False
             = Some (move_score (board g) m, set_cell (board g) (fst m) (snd m) mark_O))"
proof -
  let ?ms = "legal_moves (board g)"
  let ?M = "Max (set (map (move_score (board g)) ?ms))"
  from computer_move_first_best[OF assms] obtain m where
    f: "find (\<lambda>m. move_score (board g) m = ?M) ?ms = Some m"
    and cm: "computer_move n g = Some (g\<lparr>board := set_cell (board g) (fst m) (snd m) mark_O\<rparr>, Some m)"
    by blast
  from f obtain i where i: "i < length ?ms" "move_score (board g) (?ms ! i) = ?M" "m = ?ms ! i"
    and first: "\<forall>j < i. move_score (board g) (?ms ! j) \<noteq> ?M"
    unfolding find_Some_iff by blast
  have "move_score (board g) (?ms ! j) < ?M" if "j < i" for j
  proof -
    from that i(1) have "?ms ! j \<in> set ?ms" by simp
    then have "move_score (board g) (?ms ! j) \<le> ?M" by simp
    with first that show ?thesis by fastforce
  qed
  moreover have "\<forall>m \<in> set ?ms. minimax n (set_cell (board g) (fst m) (snd m) mark_O) False
             = Some (move_score (board g) m, set_cell (board g) (fst m) (snd m) mark_O)"
    using move_score_minimax[OF assms(1) _ assms(3)] by blast
  ultimately show ?thesis
    using i cm by blast
qed

theorem first_best_move_kept_witness:
  "wf_board (board \<lparr>board = [''XOX'', ''OX '', ''   ''], turn = mark_O\<rparr>)
   \<and> legal_moves (board \<lparr>board = [''XOX'', ''OX '', ''   ''], turn = mark_O\<rparr>) = [(1, 2), (2, 0), (2, 1), (2, 2)]
   \<and> count_empty (board \<lparr>board = [''XOX'', ''OX '', ''   ''], turn = mark_O\<rparr>) \<le> 4
   \<and> map (move_score [''XOX'', ''OX '', ''   '']) [(1, 2), (2, 0), (2, 1), (2, 2)] = [- 1, - 1, - 1, - 1]
   \<and> computer_move 4 \<lparr>board = [''XOX'', ''OX '', ''   ''], turn = mark_O\<rparr>
      = Some (\<lparr>board = [''XOX'', ''OXO'', ''   ''], turn = mark_O\<rparr>, Some (1, 2))"
proof -
  let ?g = "\<lparr>board = [''XOX'', ''OX '', ''   ''], turn = mark_O\<rparr>"
  have h: "wf_board (board ?g)" "legal_moves (board ?g) \<noteq> []" "count_empty (board ?g) \<le> 4"
    by (simp_all add: wf_board_def is_mark_def count_empty_def legal_moves_def cells_eq)
  have l: "legal_moves (board ?g) = [(1, 2), (2, 0), (2, 1), (2, 2)]"
    by (simp add: legal_moves_def cells_eq)
  have s: "map (move_score [''XOX'', ''OX '', ''   '']) [(1, 2), (2, 0), (2, 1), (2, 2)] = [- 1, - 1, - 1, - 1]"
    by code_simp
  let ?ms = "[(1, 2), (2, 0), (2, 1), (2, 2)] :: (nat \<times> nat) list"
  from first_best_move_kept[OF h, unfolded l] obtain i where i: "i < length ?ms"
    and cm: "computer_move 4 ?g = Some (?g\<lparr>board := set_cell (board ?g)
        (fst (?ms ! i)) (snd (?ms ! i)) mark_O\<rparr>, Some (?ms ! i))"
    and first: "\<forall>j < i. move_score (board ?g) (?ms ! j)
         < Max (set (map (move_score (board ?g)) ?ms))"
    by blast
  have "i = 0"
  proof (rule ccontr)
    assume "i \<noteq> 0"
    then have "0 < i" by simp
    with first have "move_score (board ?g) ([(1, 2), (2, 0), (2, 1), (2, 2)] ! 0)
         < Max (set (map (move_score (board ?g)) [(1, 2), (2, 0), (2, 1), (2, 2)]))" by blast
    then show False using s by simp
  qed
  with cm h l s show ?thesis by (simp add: set_cell_def)
qed

section \<open>The first move on the empty board\<close>

text \<open>
  C4.  On the empty board each of the nine first moves of \<open>O\<close> scores \<open>0\<close>, and
  \<^verbatim>\<open>computer_move\<close> places \<open>O\<close> at \<open>(0, 0)\<close>, the first cell of the scan.
\<close>

theorem empty_board_first_move:
  assumes "9 \<le> n"
  shows "map (\<lambda>m. minimax n (set_cell new_board (fst m) (snd m) mark_O) False) cells
       = map (\<lambda>m. Some (0, set_cell new_board (fst m) (snd m) mark_O)) cells
   \<and> computer_move n (g\<lparr>board := new_board\<rparr>)
       = Some (g\<lparr>board := [[mark_O, blank, blank], [blank, blank, blank], [blank, blank, blank]]\<rparr>,
               Some (0, 0))"
proof -
  have "minimax n (set_cell new_board (fst m) (snd m) mark_O) False
      = Some (0, set_cell new_board (fst m) (snd m) mark_O)" if "m \<in> set cells" for m
    using move_score_minimax[of new_board m n] that assms opening_score_zero[OF that]
    by (simp add: new_board_facts)
  then have "map (\<lambda>m. minimax n (set_cell new_board (fst m) (snd m) mark_O) False) cells
       = map (\<lambda>m. Some (0, set_cell new_board (fst m) (snd m) mark_O)) cells"
    by (intro map_cong) simp_all
  moreover have "set_cell new_board 0 0 mark_O
      = [[mark_O, blank, blank], [blank, blank, blank], [blank, blank, blank]]"
    by (simp add: new_board_def set_cell_def)
  ultimately show ?thesis
    using empty_board_search[OF assms, of g] by simp
qed

theorem empty_board_first_move_witness:
  "(9 :: nat) \<le> 9
   \<and> computer_move 9 (\<lparr>board = [''XOX'', ''OX '', ''   ''], turn = mark_O\<rparr>\<lparr>board := new_board\<rparr>)
       = Some (\<lparr>board = [''O  '', ''   '', ''   ''], turn = mark_O\<rparr>, Some (0, 0))
   \<and> minimax 9 [''   '', '' O '', ''   ''] False = Some (0, [''   '', '' O '', ''   ''])"
proof -
  have h: "(9 :: nat) \<le> 9" by simp
  have c: "(1, 1) \<in> set cells" by (simp add: cells_eq)
  from empty_board_first_move[OF h, of "\<lparr>board = [''XOX'', ''OX '', ''   ''], turn = mark_O\<rparr>"]
  have m: "\<forall>m \<in> set cells. minimax 9 (set_cell new_board (fst m) (snd m) mark_O) False
       = Some (0, set_cell new_board (fst m) (snd m) mark_O)"
    and cm: "computer_move 9 (\<lparr>board = [''XOX'', ''OX '', ''   ''], turn = mark_O\<rparr>\<lparr>board := new_board\<rparr>)
       = Some (\<lparr>board = [''XOX'', ''OX '', ''   ''], turn = mark_O\<rparr>
                 \<lparr>board := [[mark_O, blank, blank], [blank, blank, blank], [blank, blank, blank]]\<rparr>,
               Some (0, 0))"
    by simp_all
  from bspec[OF m c]
  have "minimax 9 [''   '', '' O '', ''   ''] False = Some (0, [''   '', '' O '', ''   ''])"
    by (simp add: new_board_def set_cell_def)
  with cm h show ?thesis by simp
qed

section \<open>Termination of the search\<close>

text \<open>
  C9.  On a 3x3 board of marks \<^verbatim>\<open>minimax\<close> returns: a board has at most nine empty
  cells, a depth bound above the number of empty cells is enough (ten always is), and
  placing a mark on an empty cell, as is done before each recursive call, gives a board
  of marks with strictly fewer empty cells.
\<close>

theorem minimax_terminates:
  assumes "wf_board b"
  shows "count_empty b \<le> 9
   \<and> (\<exists>y. minimax 10 b mx = Some y)
   \<and> (\<forall>n. count_empty b < n \<longrightarrow> (\<exists>y. minimax n b mx = Some y))
   \<and> (\<forall>r c v. r < 3 \<and> c < 3 \<and> b ! r ! c = blank \<and> (v = mark_O \<or> v = mark_X) \<longrightarrow>
         wf_board (set_cell b r c v) \<and> count_empty (set_cell b r c v) < count_empty b)"
proof -
  have le: "count_empty b \<le> 9" by (rule count_empty_le[OF assms])
  then have "count_empty b < 10" by simp
  from minimax_game_value[OF assms this, of mx] have "\<exists>y. minimax 10 b mx = Some y" by simp
  moreover have "\<exists>y. minimax n b mx = Some y" if "count_empty b < n" for n
    using minimax_game_value[OF assms that, of mx] by simp
  moreover have "wf_board (set_cell b r c v) \<and> count_empty (set_cell b r c v) < count_empty b"
    if "r < 3" "c < 3" "b ! r ! c = blank" "v = mark_O \<or> v = mark_X" for r c v
  proof -
    from that have "(r, c) \<in> set cells" by (simp add: cells_mem)
    from child_ok[OF assms this that(3,4)] show ?thesis by simp
  qed
  ultimately show ?thesis using le by blast
qed

theorem minimax_terminates_witness:
  "wf_board new_board \<and> count_empty new_board \<le> 9
   \<and> (\<exists>y. minimax 10 new_board True = Some y)
   \<and> new_board ! 1 ! 1 = blank
   \<and> count_empty (set_cell new_board 1 1 mark_O) < count_empty new_board"
proof -
  have h: "wf_board new_board" by (rule new_board_facts)
  have e: "new_board ! 1 ! 1 = blank" by (simp add: new_board_def)
  from minimax_terminates[OF h, of True] h e show ?thesis
    by simp
qed

section \<open>The range of the score\<close>

text \<open>
  C10.  On a 3x3 board of marks \<^verbatim>\<open>minimax\<close> returns \<open>-1\<close>, \<open>0\<close> or \<open>+1\<close>, never a
  sentinel: a board that is not full has an empty cell.  When there is an empty cell the
  loop of \<^verbatim>\<open>computer_move\<close> ends with a best score among \<open>-1\<close>, \<open>0\<close>, \<open>+1\<close> and with a
  best move, and \<^verbatim>\<open>computer_move\<close> announces that move.
\<close>

theorem minimax_score_range:
  assumes "wf_board (board g)" and "count_empty (board g) < n"
  shows "(\<exists>v. (v = - 1 \<or> v = 0 \<or> v = 1) \<and> minimax n (board g) mx = Some (v, board g))
   \<and> (\<not> board_full (board g) \<longrightarrow> legal_moves (board g) \<noteq> [])
   \<and> (legal_moves (board g) \<noteq> [] \<longrightarrow>
        (\<exists>s m g'. (s = - 1 \<or> s = 0 \<or> s = 1)
           \<and> computer_loop (\<lambda>b'. minimax n b' False) cells (- 999, None, board g)
               = Some (s, Some m, board g)
           \<and> computer_move n g = Some (g', Some m)))"
proof -
  note wf = assms(1)
  have "\<exists>v. (v = - 1 \<or> v = 0 \<or> v = 1) \<and> minimax n (board g) mx = Some (v, board g)"
    using minimax_game_value[OF assms, of mx] game_value_range[OF wf, of mx] by auto
  moreover have "legal_moves (board g) \<noteq> []" if "\<not> board_full (board g)"
    using that board_full_legal_moves[OF wf] by simp
  moreover have "\<exists>s m g'. (s = - 1 \<or> s = 0 \<or> s = 1)
           \<and> computer_loop (\<lambda>b'. minimax n b' False) cells (- 999, None, board g)
               = Some (s, Some m, board g)
           \<and> computer_move n g = Some (g', Some m)"
    if ne: "legal_moves (board g) \<noteq> []"
  proof -
    let ?M = "Max (set (map (move_score (board g)) (legal_moves (board g))))"
    from assms(2) have "count_empty (board g) \<le> n" by simp
    from computer_move_first_best[OF wf ne this] obtain m where
      f: "find (\<lambda>m. move_score (board g) m = ?M) (legal_moves (board g)) = Some m"
      and loop: "computer_loop (\<lambda>b'. minimax n b' False) cells (- 999, None, board g)
         = Some (?M, Some m, board g)"
      and cm: "computer_move n g = Some (g\<lparr>board := set_cell (board g) (fst m) (snd m) mark_O\<rparr>, Some m)"
      by blast
    from f have "m \<in> set (legal_moves (board g))" "move_score (board g) m = ?M"
      by (auto simp: find_Some_iff)
    with move_score_range[OF wf, of m] have "?M = - 1 \<or> ?M = 0 \<or> ?M = 1" by auto
    with loop cm show ?thesis by blast
  qed
  ultimately show ?thesis by blast
qed

theorem minimax_score_range_witness:
  "wf_board (board \<lparr>board = [''XOX'', ''OOX'', ''   ''], turn = mark_O\<rparr>)
   \<and> count_empty (board \<lparr>board = [''XOX'', ''OOX'', ''   ''], turn = mark_O\<rparr>) < 4
   \<and> \<not> board_full (board \<lparr>board = [''XOX'', ''OOX'', ''   ''], turn = mark_O\<rparr>)
   \<and> legal_moves (board \<lparr>board = [''XOX'', ''OOX'', ''   ''], turn = mark_O\<rparr>) \<noteq> []
   \<and> (\<exists>v. (v = - 1 \<or> v = 0 \<or> v = 1)
         \<and> minimax 4 [''XOX'', ''OOX'', ''   ''] True = Some (v, [''XOX'', ''OOX'', ''   '']))
   \<and> (\<exists>s m g'. (s = - 1 \<or> s = 0 \<or> s = 1)
         \<and> computer_loop (\<lambda>b'. minimax 4 b' False) cells (- 999, None, [''XOX'', ''OOX'', ''   ''])
              = Some (s, Some m, [''XOX'', ''OOX'', ''   ''])
         \<and> computer_move 4 \<lparr>board = [''XOX'', ''OOX'', ''   ''], turn = mark_O\<rparr> = Some (g', Some m))"
proof -
  let ?g = "\<lparr>board = [''XOX'', ''OOX'', ''   ''], turn = mark_O\<rparr>"
  have h: "wf_board (board ?g)" "count_empty (board ?g) < 4"
    by (simp_all add: wf_board_def is_mark_def count_empty_def)
  have f: "\<not> board_full (board ?g)"
    by (simp add: board_full_def)
  from minimax_score_range[OF h, of True] h f show ?thesis
    by simp
qed

end
